theory Spec2Isabelle
  imports Main "HOL-Library.Word"
begin

unbundle bit_operations_syntax

section \<open>Data model of \<open>lzarena.c\<close>\<close>

text \<open>
  The allocator is modelled on an LP64 platform: \<open>size_t\<close> and \<open>uintptr_t\<close> are 64-bit
  words, and a pointer is its address (\<open>NULL\<close> is the word \<open>0\<close>). Arithmetic on them
  wraps around exactly as the unsigned arithmetic of the source does.

  The header \<open>lzarena.h\<close> is not part of the sources. The constants it (or the platform)
  provides are therefore parameters of the model, collected in \<open>config\<close>:
  \<open>PAGE_SIZE\<close>, \<open>LZARENA_DEFAULT_FACTOR\<close>, \<open>LZARENA_DEFAULT_ALIGNMENT\<close>,
  \<open>REGION_SIZE = sizeof(LZRegion)\<close> and \<open>ARENA_SIZE = sizeof(LZArena)\<close>.
  The two structs are read off the field accesses of \<open>lzarena.c\<close>.
\<close>

type_synonym size_t = "64 word"
type_synonym uintptr_t = "64 word"

record config =
  PAGE_SIZE :: size_t
  LZARENA_DEFAULT_FACTOR :: size_t
  LZARENA_DEFAULT_ALIGNMENT :: size_t
  REGION_SIZE :: size_t
  ARENA_SIZE :: size_t

record LZRegion =
  region_len :: size_t
  chunk_len :: size_t
  offset :: uintptr_t
  chunk :: uintptr_t
  "next" :: uintptr_t

record LZArena =
  head :: uintptr_t
  tail :: uintptr_t
  allocator :: uintptr_t

text \<open>
  Every call that leaves the library towards a supplier of memory is recorded:
  the three slots of a caller-supplied \<open>LZArenaAllocator\<close> (identified by its address),
  and the built-in backend selected at build time (\<open>malloc\<close>/\<open>mmap\<close>/\<open>VirtualAlloc\<close>
  and the matching release).
\<close>

datatype backend_call =
    Allocator_alloc uintptr_t size_t
  | Allocator_dealloc uintptr_t uintptr_t size_t
  | Backend_acquire size_t
  | Backend_release uintptr_t

text \<open>
  The machine state. Region and arena headers live in typed stores indexed by their
  address; \<open>bytes\<close> is the raw content of memory that \<open>memset\<close> and \<open>memcpy\<close> touch.
  The supplier of memory is external, so its answers are an oracle: \<open>pending\<close> lists the
  addresses the next acquisitions will return (\<open>0\<close>, or an exhausted list, is a failed
  acquisition). \<open>calls\<close> is the log of supplier calls made so far.

  Operations return \<open>None\<close> when the C program does not return normally: a failed
  \<open>assert\<close>, a trap (division by zero), an access through an invalid pointer, or a loop
  that never ends.
\<close>

record heap =
  arenas :: "uintptr_t \<rightharpoonup> LZArena"
  regions :: "uintptr_t \<rightharpoonup> LZRegion"
  bytes :: "uintptr_t \<Rightarrow> 8 word"
  pending :: "uintptr_t list"
  calls :: "backend_call list"

section \<open>Suppliers of memory\<close>

definition lzalloc :: "size_t \<Rightarrow> uintptr_t \<Rightarrow> heap \<Rightarrow> uintptr_t \<times> heap" where
  "lzalloc sz allocator' h =
     (let call = (if allocator' \<noteq> 0 then Allocator_alloc allocator' sz else Backend_acquire sz)
      in case pending h of
           [] \<Rightarrow> (0, h\<lparr>calls := calls h @ [call]\<rparr>)
         | p # ps \<Rightarrow> (p, h\<lparr>pending := ps, calls := calls h @ [call]\<rparr>))"

definition lzdealloc :: "uintptr_t \<Rightarrow> size_t \<Rightarrow> uintptr_t \<Rightarrow> heap \<Rightarrow> heap" where
  "lzdealloc ptr sz allocator' h =
     (if ptr = 0 then h
      else if allocator' \<noteq> 0 then h\<lparr>calls := calls h @ [Allocator_dealloc allocator' ptr sz]\<rparr>
      else h\<lparr>calls := calls h @ [Backend_release ptr]\<rparr>)"

definition memset :: "uintptr_t \<Rightarrow> 8 word \<Rightarrow> size_t \<Rightarrow> heap \<Rightarrow> heap" where
  "memset ptr c n h = h\<lparr>bytes := (\<lambda>a. if a - ptr < n then c else bytes h a)\<rparr>"

text \<open>
  \<open>memcpy\<close> is undefined through a null pointer and on overlapping blocks; the model does
  not return there.
\<close>

definition memcpy :: "uintptr_t \<Rightarrow> uintptr_t \<Rightarrow> size_t \<Rightarrow> heap \<Rightarrow> heap option" where
  "memcpy dst src n h =
     (if dst = 0 \<or> src = 0 then None
      else if dst - src < n \<or> src - dst < n then None
      else Some (h\<lparr>bytes := (\<lambda>a. if a - dst < n then bytes h (src + (a - dst)) else bytes h a)\<rparr>))"

section \<open>Alignment utilities\<close>

definition is_power_of_two :: "uintptr_t \<Rightarrow> bool" where
  "is_power_of_two x = (x AND (x - 1) = 0)"

definition align_size :: "size_t \<Rightarrow> size_t \<Rightarrow> size_t option" where
  "align_size sz alignment =
     (if \<not> is_power_of_two alignment then None
      else if alignment = 0 then Some sz
      else let module = sz AND (alignment - 1);
               padding = (if module = 0 then 0 else alignment - module)
           in Some (padding + sz))"

definition is_aligned_to :: "uintptr_t \<Rightarrow> size_t \<Rightarrow> bool option" where
  "is_aligned_to buff alignment =
     (if \<not> is_power_of_two alignment then None
      else if alignment = 0 then None
      else Some (buff mod alignment = 0))"

definition align_forward :: "uintptr_t \<Rightarrow> size_t \<Rightarrow> uintptr_t option" where
  "align_forward addr alignment =
     (if \<not> is_power_of_two alignment then None
      else let module = addr AND (alignment - 1);
               padding = (if module = 0 then 0 else alignment - module)
           in Some (padding + addr))"

section \<open>Regions\<close>

definition lzregion_init :: "config \<Rightarrow> size_t \<Rightarrow> uintptr_t \<Rightarrow> heap \<Rightarrow> (uintptr_t \<times> heap) option" where
  "lzregion_init cfg buff_size buffer h =
     (let buff_start = buffer;
          buff_end = buff_start + buff_size
      in case align_forward buff_start (LZARENA_DEFAULT_ALIGNMENT cfg) of
           None \<Rightarrow> None
         | Some region_start \<Rightarrow>
             (let region_end = region_start + REGION_SIZE cfg
              in case align_forward region_end (LZARENA_DEFAULT_ALIGNMENT cfg) of
                   None \<Rightarrow> None
                 | Some chunk_start \<Rightarrow>
                     if \<not> chunk_start \<le> buff_end then None
                     else if \<not> buff_end - chunk_start < buff_size then None
                     else Some (region_start,
                            h\<lparr>regions := (regions h)(region_start \<mapsto>
                                \<lparr>region_len = buff_size,
                                 chunk_len = buff_end - chunk_start,
                                 offset = chunk_start,
                                 chunk = chunk_start,
                                 next = 0\<rparr>)\<rparr>)))"

definition lzregion_create :: "config \<Rightarrow> size_t \<Rightarrow> heap \<Rightarrow> (uintptr_t \<times> heap) option" where
  "lzregion_create cfg sz h =
     (let (buffer, h') = lzalloc sz 0 h
      in if buffer = 0 then Some (0, h') else lzregion_init cfg sz buffer h')"

definition lzregion_destroy :: "uintptr_t \<Rightarrow> heap \<Rightarrow> heap option" where
  "lzregion_destroy region h =
     (if region = 0 then Some h
      else case regions h region of
             None \<Rightarrow> None
           | Some r \<Rightarrow> Some (h\<lparr>regions := (regions h)(region := None),
                              calls := calls h @ [Backend_release region]\<rparr>))"

definition lzregion_available :: "uintptr_t \<Rightarrow> heap \<Rightarrow> size_t option" where
  "lzregion_available region h =
     (case regions h region of
        None \<Rightarrow> None
      | Some r \<Rightarrow>
          let buff_start = offset r;
              buff_end = buff_start + chunk_len r
          in if \<not> buff_start < buff_end then None
             else Some (buff_end - buff_start))"

definition lzregion_available_alignment :: "size_t \<Rightarrow> uintptr_t \<Rightarrow> heap \<Rightarrow> size_t option" where
  "lzregion_available_alignment alignment region h =
     (case regions h region of
        None \<Rightarrow> None
      | Some r \<Rightarrow>
          (let chunk_start = chunk r;
               chunk_end = chunk_start + chunk_len r
           in case align_forward (offset r) alignment of
                None \<Rightarrow> None
              | Some off \<Rightarrow> Some (if off \<ge> chunk_end then 0 else chunk_end - off)))"

definition lzregion_alloc_align :: "size_t \<Rightarrow> size_t \<Rightarrow> uintptr_t \<Rightarrow> heap \<Rightarrow> (uintptr_t \<times> heap) option" where
  "lzregion_alloc_align sz alignment region h =
     (case lzregion_available_alignment alignment region h of
        None \<Rightarrow> None
      | Some available \<Rightarrow>
          if sz > available then Some (0, h)
          else (case regions h region of
                  None \<Rightarrow> None
                | Some r \<Rightarrow>
                    (case align_forward (offset r) alignment of
                       None \<Rightarrow> None
                     | Some off \<Rightarrow>
                         Some (off, h\<lparr>regions := (regions h)(region \<mapsto> r\<lparr>offset := off + sz\<rparr>)\<rparr>))))"

definition lzregion_calloc_align :: "size_t \<Rightarrow> size_t \<Rightarrow> uintptr_t \<Rightarrow> heap \<Rightarrow> (uintptr_t \<times> heap) option" where
  "lzregion_calloc_align sz alignment region h =
     (case lzregion_alloc_align sz alignment region h of
        None \<Rightarrow> None
      | Some (ptr, h') \<Rightarrow> Some (ptr, if ptr \<noteq> 0 then memset ptr 0 sz h' else h'))"

definition lzregion_realloc_align ::
    "uintptr_t \<Rightarrow> size_t \<Rightarrow> size_t \<Rightarrow> size_t \<Rightarrow> uintptr_t \<Rightarrow> heap \<Rightarrow> (uintptr_t \<times> heap) option" where
  "lzregion_realloc_align ptr old_size new_size alignment region h =
     (if new_size \<le> old_size then Some (ptr, h)
      else case lzregion_alloc_align new_size alignment region h of
             None \<Rightarrow> None
           | Some (new_ptr, h') \<Rightarrow>
               if ptr \<noteq> 0
               then (case memcpy new_ptr ptr old_size h' of
                       None \<Rightarrow> None
                     | Some h'' \<Rightarrow> Some (new_ptr, h''))
               else Some (new_ptr, h'))"

text \<open>
  Modelled from the spec: the macro \<open>LZREGION_FREE\<close> of the missing header \<open>lzarena.h\<close>.
  The spec's bulk reset ``resets every Region's cursor back to its base (content not
  wiped)'', so the macro is the assignment \<open>region->offset = region->chunk\<close>.
\<close>

definition LZREGION_FREE :: "uintptr_t \<Rightarrow> heap \<Rightarrow> heap option" where
  "LZREGION_FREE region h =
     (case regions h region of
        None \<Rightarrow> None
      | Some r \<Rightarrow> Some (h\<lparr>regions := (regions h)(region \<mapsto> r\<lparr>offset := chunk r\<rparr>)\<rparr>))"

section \<open>Arenas\<close>

text \<open>
  The sizing of a new backing buffer, the first lines of \<open>append_region\<close>: the request
  plus \<open>REGION_SIZE\<close>, rounded up to a multiple of \<open>PAGE_SIZE * LZARENA_DEFAULT_FACTOR\<close>.
  The division \<open>size / buff_len\<close> traps when \<open>buff_len\<close> is zero.
\<close>

definition append_region_buff_len :: "config \<Rightarrow> size_t \<Rightarrow> size_t option" where
  "append_region_buff_len cfg sz =
     (let size' = sz + REGION_SIZE cfg;
          buff_len = PAGE_SIZE cfg * LZARENA_DEFAULT_FACTOR cfg
      in if size' > buff_len
         then if buff_len = 0 then None
              else let factor0 = size' div buff_len;
                       factor = (if factor0 * buff_len < size' then factor0 + 1 else factor0)
                   in Some (factor * buff_len)
         else Some buff_len)"

text \<open>
  \<open>append_region\<close> returns a C truth value: \<open>True\<close> stands for the result \<open>1\<close> (failure),
  \<open>False\<close> for \<open>0\<close>.
\<close>

definition append_region :: "config \<Rightarrow> size_t \<Rightarrow> uintptr_t \<Rightarrow> heap \<Rightarrow> (bool \<times> heap) option" where
  "append_region cfg sz arena h =
     (case arenas h arena of
        None \<Rightarrow> None
      | Some a \<Rightarrow>
          (case append_region_buff_len cfg sz of
             None \<Rightarrow> None
           | Some buff_len \<Rightarrow>
               (case (if allocator a \<noteq> 0
                      then (let (buff, h') = lzalloc buff_len (allocator a) h
                            in if buff = 0 then Some (0, h') else lzregion_init cfg buff_len buff h')
                      else lzregion_create cfg buff_len h) of
                  None \<Rightarrow> None
                | Some (region, h1) \<Rightarrow>
                    if region = 0 then Some (True, h1)
                    else if tail a \<noteq> 0
                    then (case regions h1 (tail a) of
                            None \<Rightarrow> None
                          | Some t \<Rightarrow>
                              Some (False,
                                h1\<lparr>regions := (regions h1)(tail a \<mapsto> t\<lparr>next := region\<rparr>),
                                   arenas := (arenas h1)(arena \<mapsto> a\<lparr>tail := region\<rparr>)\<rparr>))
                    else Some (False,
                           h1\<lparr>arenas := (arenas h1)(arena \<mapsto> a\<lparr>head := region, tail := region\<rparr>)\<rparr>))))"

definition lzarena_create :: "config \<Rightarrow> uintptr_t \<Rightarrow> heap \<Rightarrow> uintptr_t \<times> heap" where
  "lzarena_create cfg allocator' h =
     (let (arena, h') = lzalloc (ARENA_SIZE cfg) allocator' h
      in if arena = 0 then (0, h')
         else (arena, h'\<lparr>arenas := (arenas h')(arena \<mapsto>
                 \<lparr>head = 0, tail = 0, allocator = allocator'\<rparr>)\<rparr>))"

text \<open>The loop of \<open>lzarena_destroy\<close>, started at \<open>current\<close>.\<close>

partial_function (option) lzarena_destroy_loop :: "uintptr_t \<Rightarrow> uintptr_t \<Rightarrow> heap \<Rightarrow> heap option" where
  "lzarena_destroy_loop allocator' current h =
     (if current \<noteq> 0
      then (case regions h current of
              None \<Rightarrow> None
            | Some r \<Rightarrow>
                (let next' = next r
                 in case (if allocator' \<noteq> 0
                          then Some (lzdealloc current (region_len r) allocator' h)
                          else lzregion_destroy current h) of
                      None \<Rightarrow> None
                    | Some h' \<Rightarrow> lzarena_destroy_loop allocator' next' h'))
      else Some h)"

declare lzarena_destroy_loop.simps [code]

definition lzarena_destroy :: "config \<Rightarrow> uintptr_t \<Rightarrow> heap \<Rightarrow> heap option" where
  "lzarena_destroy cfg arena h =
     (if arena = 0 then Some h
      else case arenas h arena of
             None \<Rightarrow> None
           | Some a \<Rightarrow>
               (case lzarena_destroy_loop (allocator a) (head a) h of
                  None \<Rightarrow> None
                | Some h' \<Rightarrow>
                    Some (lzdealloc arena (ARENA_SIZE cfg) (allocator a)
                            (h'\<lparr>arenas := (arenas h')(arena := None)\<rparr>))))"

text \<open>The loop of \<open>lzarena_report\<close>: the state is \<open>current\<close> and the two sums \<open>u\<close>, \<open>s\<close>.\<close>

partial_function (option) lzarena_report_loop ::
    "uintptr_t \<Rightarrow> size_t \<Rightarrow> size_t \<Rightarrow> heap \<Rightarrow> (size_t \<times> size_t) option" where
  "lzarena_report_loop current u s h =
     (if current \<noteq> 0
      then (case regions h current of
              None \<Rightarrow> None
            | Some r \<Rightarrow>
                (case lzregion_available current h of
                   None \<Rightarrow> None
                 | Some available \<Rightarrow>
                     lzarena_report_loop (next r) (u + (chunk_len r - available)) (s + chunk_len r) h))
      else Some (u, s))"

declare lzarena_report_loop.simps [code]

definition lzarena_report :: "uintptr_t \<Rightarrow> heap \<Rightarrow> (size_t \<times> size_t) option" where
  "lzarena_report arena h =
     (case arenas h arena of
        None \<Rightarrow> None
      | Some a \<Rightarrow> lzarena_report_loop (head a) 0 0 h)"

text \<open>The loop of \<open>lzarena_free_all\<close>.\<close>

partial_function (option) lzarena_free_all_loop :: "uintptr_t \<Rightarrow> heap \<Rightarrow> heap option" where
  "lzarena_free_all_loop current h =
     (if current \<noteq> 0
      then (case regions h current of
              None \<Rightarrow> None
            | Some r \<Rightarrow>
                (case LZREGION_FREE current h of
                   None \<Rightarrow> None
                 | Some h' \<Rightarrow> lzarena_free_all_loop (next r) h'))
      else Some h)"

declare lzarena_free_all_loop.simps [code]

definition lzarena_free_all :: "uintptr_t \<Rightarrow> heap \<Rightarrow> heap option" where
  "lzarena_free_all arena h =
     (case arenas h arena of
        None \<Rightarrow> None
      | Some a \<Rightarrow>
          (case lzarena_free_all_loop (head a) h of
             None \<Rightarrow> None
           | Some h' \<Rightarrow>
               (case arenas h' arena of
                  None \<Rightarrow> None
                | Some a' \<Rightarrow> Some (h'\<lparr>arenas := (arenas h')(arena \<mapsto> a'\<lparr>tail := head a'\<rparr>)\<rparr>))))"

text \<open>
  The \<open>while(arena->tail->next)\<close> loop of \<open>lzarena_alloc_align\<close>: it moves
  \<open>arena->tail\<close> forward while the tail region has a successor and too little room.
\<close>

partial_function (option) lzarena_alloc_align_loop ::
    "size_t \<Rightarrow> size_t \<Rightarrow> uintptr_t \<Rightarrow> heap \<Rightarrow> heap option" where
  "lzarena_alloc_align_loop sz alignment arena h =
     (case arenas h arena of
        None \<Rightarrow> None
      | Some a \<Rightarrow>
          (case regions h (tail a) of
             None \<Rightarrow> None
           | Some t \<Rightarrow>
               if next t \<noteq> 0
               then (case lzregion_available_alignment alignment (tail a) h of
                       None \<Rightarrow> None
                     | Some available \<Rightarrow>
                         if available < sz
                         then lzarena_alloc_align_loop sz alignment arena
                                (h\<lparr>arenas := (arenas h)(arena \<mapsto> a\<lparr>tail := next t\<rparr>)\<rparr>)
                         else Some h)
               else Some h))"

declare lzarena_alloc_align_loop.simps [code]

definition lzarena_alloc_align ::
    "config \<Rightarrow> size_t \<Rightarrow> size_t \<Rightarrow> uintptr_t \<Rightarrow> heap \<Rightarrow> (uintptr_t \<times> heap) option" where
  "lzarena_alloc_align cfg sz alignment arena h =
     (case arenas h arena of
        None \<Rightarrow> None
      | Some a \<Rightarrow>
          (case (if tail a = 0 then append_region cfg sz arena h else Some (False, h)) of
             None \<Rightarrow> None
           | Some (True, h1) \<Rightarrow> Some (0, h1)
           | Some (False, h1) \<Rightarrow>
               (case lzarena_alloc_align_loop sz alignment arena h1 of
                  None \<Rightarrow> None
                | Some h2 \<Rightarrow>
                    (case arenas h2 arena of
                       None \<Rightarrow> None
                     | Some a2 \<Rightarrow>
                         (case lzregion_available_alignment alignment (tail a2) h2 of
                            None \<Rightarrow> None
                          | Some available \<Rightarrow>
                              (case (if sz > available then append_region cfg sz arena h2
                                     else Some (False, h2)) of
                                 None \<Rightarrow> None
                               | Some (True, h3) \<Rightarrow> Some (0, h3)
                               | Some (False, h3) \<Rightarrow>
                                   (case arenas h3 arena of
                                      None \<Rightarrow> None
                                    | Some a3 \<Rightarrow>
                                        lzregion_alloc_align sz alignment (tail a3) h3)))))))"

definition lzarena_calloc_align ::
    "config \<Rightarrow> size_t \<Rightarrow> size_t \<Rightarrow> uintptr_t \<Rightarrow> heap \<Rightarrow> (uintptr_t \<times> heap) option" where
  "lzarena_calloc_align cfg sz alignment arena h =
     (case lzarena_alloc_align cfg sz alignment arena h of
        None \<Rightarrow> None
      | Some (ptr, h') \<Rightarrow> Some (ptr, if ptr \<noteq> 0 then memset ptr 0 sz h' else h'))"

definition lzarena_realloc_align ::
    "config \<Rightarrow> uintptr_t \<Rightarrow> size_t \<Rightarrow> size_t \<Rightarrow> size_t \<Rightarrow> uintptr_t \<Rightarrow> heap \<Rightarrow> (uintptr_t \<times> heap) option" where
  "lzarena_realloc_align cfg ptr old_size new_size alignment arena h =
     (if new_size \<le> old_size then Some (ptr, h)
      else case lzarena_alloc_align cfg new_size alignment arena h of
             None \<Rightarrow> None
           | Some (new_ptr, h') \<Rightarrow>
               if ptr \<noteq> 0
               then (case memcpy new_ptr ptr old_size h' of
                       None \<Rightarrow> None
                     | Some h'' \<Rightarrow> Some (new_ptr, h''))
               else Some (new_ptr, h'))"

section \<open>Invariants and reference states\<close>

text \<open>
  The region invariant of the specification, \<open>base \<le> cursor \<le> base + usableLength\<close>,
  read on the addresses as natural numbers.
\<close>

definition region_invariant :: "LZRegion \<Rightarrow> bool" where
  "region_invariant r =
     (unat (chunk r) \<le> unat (offset r) \<and> unat (offset r) \<le> unat (chunk r) + unat (chunk_len r))"

text \<open>
  The chain of regions that starts at pointer \<open>p\<close> and ends with a null \<open>next\<close> link,
  as the list of the addresses of its headers.
\<close>

fun region_chain :: "(uintptr_t \<rightharpoonup> LZRegion) \<Rightarrow> uintptr_t \<Rightarrow> uintptr_t list \<Rightarrow> bool" where
  "region_chain rs p [] = (p = 0)"
| "region_chain rs p (q # qs) =
     (p = q \<and> q \<noteq> 0 \<and> (case rs q of None \<Rightarrow> False | Some r \<Rightarrow> region_chain rs (next r) qs))"

text \<open>
  Sets of addresses, as natural numbers: the bytes of a block, the usable span of a
  region, and the part of the span below the cursor, from which blocks have been handed out
  since the last reset.
\<close>

definition block :: "uintptr_t \<Rightarrow> size_t \<Rightarrow> nat set" where
  "block p n = {unat p ..< unat p + unat n}"

definition region_span :: "LZRegion \<Rightarrow> nat set" where
  "region_span r = {unat (chunk r) ..< unat (chunk r) + unat (chunk_len r)}"

definition region_used :: "LZRegion \<Rightarrow> nat set" where
  "region_used r = {unat (chunk r) ..< min (unat (offset r)) (unat (chunk r) + unat (chunk_len r))}"

definition allocated :: "heap \<Rightarrow> uintptr_t list \<Rightarrow> nat set" where
  "allocated h ps = (\<Union>p \<in> set ps. case regions h p of None \<Rightarrow> {} | Some r \<Rightarrow> region_used r)"

text \<open>
  What holds of every region of an arena: the header has a non-null address and lies before
  the usable span, the span is not empty, the cursor is not before the span, and header, span
  and cursor lie in the lower half of the address space (where user memory lives on the
  64-bit platforms of the source), so that aligning an address never wraps around.
  The upper bound of the region invariant, \<open>offset \<le> chunk + chunk_len\<close>, is not part of
  it: the code does not maintain it.
\<close>

definition region_ok :: "uintptr_t \<Rightarrow> LZRegion \<Rightarrow> bool" where
  "region_ok p r =
     (p \<noteq> 0 \<and> unat p < unat (chunk r) \<and> 0 < unat (chunk_len r)
      \<and> unat (chunk r) + unat (chunk_len r) \<le> 2 ^ 63
      \<and> unat (chunk r) \<le> unat (offset r) \<and> unat (offset r) \<le> 2 ^ 63)"

text \<open>The extent of a region in memory, from its header to the end of its span.\<close>

definition extent :: "heap \<Rightarrow> uintptr_t \<Rightarrow> nat \<times> nat" where
  "extent h p =
     (case regions h p of None \<Rightarrow> (0, 0) | Some r \<Rightarrow> (unat p, unat (chunk r) + unat (chunk_len r)))"

definition apart :: "nat \<times> nat \<Rightarrow> nat \<times> nat \<Rightarrow> bool" where
  "apart x y = (snd x \<le> fst y \<or> snd y \<le> fst x)"

fun pairwise_apart :: "(nat \<times> nat) list \<Rightarrow> bool" where
  "pairwise_apart [] = True"
| "pairwise_apart (x # xs) = (list_all (apart x) xs \<and> pairwise_apart xs)"

text \<open>
  The arena invariant, for the arena at address \<open>arena\<close> whose chain is \<open>ps\<close>: the chain
  starts at \<open>head\<close>, \<open>tail\<close> is null exactly when the chain is empty and is one of its
  regions otherwise, every region is well formed, and the regions occupy pairwise disjoint
  memory.
\<close>

definition arena_invariant :: "heap \<Rightarrow> uintptr_t \<Rightarrow> uintptr_t list \<Rightarrow> bool" where
  "arena_invariant h arena ps =
     (case arenas h arena of
        None \<Rightarrow> False
      | Some a \<Rightarrow>
          region_chain (regions h) (head a) ps
          \<and> (if ps = [] then tail a = 0 else tail a \<in> set ps)
          \<and> list_all (\<lambda>p. case regions h p of None \<Rightarrow> False | Some r \<Rightarrow> region_ok p r) ps
          \<and> pairwise_apart (map (extent h) ps))"

text \<open>
  What is assumed of the constants of the missing header: the page size is a power of two,
  the default alignment is a power of two, the default block length
  \<open>PAGE_SIZE * LZARENA_DEFAULT_FACTOR\<close> does not overflow, and a page has room for a region
  header with its alignment padding.
\<close>

definition config_ok :: "config \<Rightarrow> bool" where
  "config_ok cfg =
     (PAGE_SIZE cfg \<noteq> 0 \<and> is_power_of_two (PAGE_SIZE cfg)
      \<and> LZARENA_DEFAULT_FACTOR cfg \<noteq> 0
      \<and> unat (PAGE_SIZE cfg) * unat (LZARENA_DEFAULT_FACTOR cfg) < 2 ^ 64
      \<and> LZARENA_DEFAULT_ALIGNMENT cfg \<noteq> 0 \<and> is_power_of_two (LZARENA_DEFAULT_ALIGNMENT cfg)
      \<and> REGION_SIZE cfg \<noteq> 0
      \<and> unat (REGION_SIZE cfg) + 2 * unat (LZARENA_DEFAULT_ALIGNMENT cfg) \<le> unat (PAGE_SIZE cfg))"

text \<open>
  What is assumed of the supplier of memory, for the buffers of length \<open>len\<close> it hands out
  next: each one is either a failure (\<open>0\<close>) or a buffer in the lower half of the address
  space that is disjoint from the extents \<open>exts\<close> already in use and from the buffers
  handed out before it.
\<close>

fun fresh_buffers :: "nat \<Rightarrow> (nat \<times> nat) list \<Rightarrow> uintptr_t list \<Rightarrow> bool" where
  "fresh_buffers len exts [] = True"
| "fresh_buffers len exts (b # bs) =
     (if b = 0 then fresh_buffers len exts bs
      else unat b + len \<le> 2 ^ 63
           \<and> list_all (apart (unat b, unat b + len)) exts
           \<and> fresh_buffers len ((unat b, unat b + len) # exts) bs)"

text \<open>The region header found at address \<open>p\<close> in the heap that a call returned.\<close>

definition region_after :: "uintptr_t \<Rightarrow> ('a \<times> heap) option \<Rightarrow> LZRegion option" where
  "region_after p res = (case res of None \<Rightarrow> None | Some (_, h') \<Rightarrow> regions h' p)"

text \<open>A heap holding a single region header \<open>r\<close> at address \<open>p\<close>.\<close>

definition region_heap :: "uintptr_t \<Rightarrow> LZRegion \<Rightarrow> heap" where
  "region_heap p r =
     \<lparr>arenas = Map.empty, regions = [p \<mapsto> r], bytes = (\<lambda>_. 0), pending = [], calls = []\<rparr>"

text \<open>
  A region as \<open>lzregion_init\<close> lays it out in a 4096-byte buffer at address 4096 (header of
  40 bytes, default alignment 16), after 4040 of its 4048 usable bytes have been handed out.
\<close>

definition used_region :: LZRegion where
  "used_region = \<lparr>region_len = 4096, chunk_len = 4048, offset = 8184, chunk = 4144, next = 0\<rparr>"

text \<open>
  The region store after a bulk reset of the chain \<open>ps\<close>: the cursor of each of its regions
  is back at the base, every other field and every other header is as before.
\<close>

definition reset_regions :: "(uintptr_t \<rightharpoonup> LZRegion) \<Rightarrow> uintptr_t list \<Rightarrow> (uintptr_t \<rightharpoonup> LZRegion)" where
  "reset_regions rs ps =
     (\<lambda>q. if q \<in> set ps then map_option (\<lambda>r. r\<lparr>offset := chunk r\<rparr>) (rs q) else rs q)"

text \<open>The sum of the usable lengths of the chain, in \<open>size_t\<close> arithmetic as the report computes it.\<close>

definition total_len :: "heap \<Rightarrow> uintptr_t list \<Rightarrow> size_t" where
  "total_len h ps = sum_list (map (\<lambda>q. case regions h q of None \<Rightarrow> 0 | Some r \<Rightarrow> chunk_len r) ps)"

text \<open>
  Reference constants (4 KiB pages, factor 1, default alignment 16, a region header of five
  8-byte fields, an arena header of three), and an arena at address 1024 with two regions laid
  out by \<open>lzregion_init\<close> in buffers at 4096 and 16384: 4000 bytes are in use in the first one,
  100 in the second, which is the tail. The supplier will answer the next acquisition with
  the address 32768.
\<close>

definition demo_config :: config where
  "demo_config = \<lparr>PAGE_SIZE = 4096, LZARENA_DEFAULT_FACTOR = 1, LZARENA_DEFAULT_ALIGNMENT = 16,
                   REGION_SIZE = 40, ARENA_SIZE = 24\<rparr>"

definition demo_heap :: heap where
  "demo_heap =
     \<lparr>arenas = [1024 \<mapsto> \<lparr>head = 4096, tail = 16384, allocator = 0\<rparr>],
      regions = [4096 \<mapsto> \<lparr>region_len = 4096, chunk_len = 4048, offset = 8144, chunk = 4144, next = 16384\<rparr>,
                 16384 \<mapsto> \<lparr>region_len = 4096, chunk_len = 4048, offset = 16532, chunk = 16432, next = 0\<rparr>],
      bytes = (\<lambda>_. 0),
      pending = [32768],
      calls = [Backend_acquire 24, Backend_acquire 4096, Backend_acquire 4096]\<rparr>"

text \<open>
  The region at which the search loop of \<open>lzarena_alloc_align\<close> stops when it starts at the
  head of the chain \<open>ts\<close>: the first region with enough room for the aligned request, or
  the last region.
\<close>

fun loop_tail :: "size_t \<Rightarrow> size_t \<Rightarrow> heap \<Rightarrow> uintptr_t list \<Rightarrow> uintptr_t" where
  "loop_tail sz alignment h [] = 0"
| "loop_tail sz alignment h [t] = t"
| "loop_tail sz alignment h (t # u # us) =
     (case lzregion_available_alignment alignment t h of
        None \<Rightarrow> t
      | Some available \<Rightarrow> if available < sz then loop_tail sz alignment h (u # us) else t)"

text \<open>The position of a region in a chain (the length of the chain if it is not in it).\<close>

definition position :: "uintptr_t \<Rightarrow> uintptr_t list \<Rightarrow> nat" where
  "position t ps = length (takeWhile (\<lambda>q. q \<noteq> t) ps)"

definition tail_position :: "heap \<Rightarrow> uintptr_t \<Rightarrow> uintptr_t list \<Rightarrow> nat" where
  "tail_position h arena ps = (case arenas h arena of None \<Rightarrow> 0 | Some a \<Rightarrow> position (tail a) ps)"

text \<open>
  What every step of an allocation does to an arena with chain \<open>ps\<close>, leading to an arena
  with chain \<open>ps'\<close>: the invariant holds again, the chain has only grown at its end, the
  contents of memory are untouched, whatever was handed out still is, \<open>tail\<close> has not moved
  backwards, the regions before the old \<open>tail\<close> are untouched, and no region has changed
  its span; \<open>head\<close> (of a non-empty chain) and \<open>allocator\<close> are the same.
\<close>

definition arena_step :: "uintptr_t \<Rightarrow> heap \<Rightarrow> uintptr_t list \<Rightarrow> heap \<Rightarrow> uintptr_t list \<Rightarrow> bool" where
  "arena_step arena h ps h' ps' =
     (arena_invariant h' arena ps'
      \<and> take (length ps) ps' = ps
      \<and> bytes h' = bytes h
      \<and> allocated h ps \<subseteq> allocated h' ps'
      \<and> tail_position h arena ps \<le> tail_position h' arena ps'
      \<and> (\<forall>q \<in> set ps. position q ps < tail_position h arena ps \<longrightarrow> regions h' q = regions h q)
      \<and> (\<forall>q \<in> set ps. map_option region_span (regions h' q) = map_option region_span (regions h q))
      \<and> map_option allocator (arenas h' arena) = map_option allocator (arenas h arena)
      \<and> (ps \<noteq> [] \<longrightarrow> map_option head (arenas h' arena) = map_option head (arenas h arena)))"

text \<open>
  The part of \<open>lzarena_alloc_align\<close> behind its first line (the search loop, the growth and
  the delegation to the tail region), as a function of the heap that the first line leaves.
\<close>

definition lzarena_alloc_align_search ::
    "config \<Rightarrow> size_t \<Rightarrow> size_t \<Rightarrow> uintptr_t \<Rightarrow> heap \<Rightarrow> (uintptr_t \<times> heap) option" where
  "lzarena_alloc_align_search cfg sz alignment arena h1 =
     (case lzarena_alloc_align_loop sz alignment arena h1 of
        None \<Rightarrow> None
      | Some h2 \<Rightarrow>
          (case arenas h2 arena of
             None \<Rightarrow> None
           | Some a2 \<Rightarrow>
               (case lzregion_available_alignment alignment (tail a2) h2 of
                  None \<Rightarrow> None
                | Some available \<Rightarrow>
                    (case (if sz > available then append_region cfg sz arena h2
                           else Some (False, h2)) of
                       None \<Rightarrow> None
                     | Some (True, h3) \<Rightarrow> Some (0, h3)
                     | Some (False, h3) \<Rightarrow>
                         (case arenas h3 arena of
                            None \<Rightarrow> None
                          | Some a3 \<Rightarrow>
                              lzregion_alloc_align sz alignment (tail a3) h3)))))"

text \<open>
  What holds of a non-null address \<open>p\<close> returned for a request of \<open>sz\<close> bytes at
  \<open>alignment\<close>, by a call that leads from the arena with chain \<open>ps\<close> in heap \<open>h\<close> to the arena
  with chain \<open>ps'\<close> in heap \<open>h'\<close>: \<open>p\<close> is a multiple of the alignment, the block lies
  in the usable span of the region that is the tail after the call, it is disjoint from
  everything handed out before the call, and it counts as handed out after the call.
\<close>

definition block_served ::
    "uintptr_t \<Rightarrow> size_t \<Rightarrow> uintptr_t \<Rightarrow> size_t \<Rightarrow> heap \<Rightarrow> uintptr_t list \<Rightarrow> heap \<Rightarrow> uintptr_t list \<Rightarrow> bool" where
  "block_served arena alignment p sz h ps h' ps' =
     (unat alignment dvd unat p
      \<and> block p sz \<inter> allocated h ps = {}
      \<and> block p sz \<subseteq> allocated h' ps'
      \<and> (case arenas h' arena of
            None \<Rightarrow> False
          | Some a' \<Rightarrow>
              tail a' \<in> set ps'
              \<and> (case regions h' (tail a') of
                    None \<Rightarrow> False
                  | Some r' \<Rightarrow>
                      block p sz \<subseteq> region_span r'
                      \<and> (sz \<noteq> 0 \<longrightarrow> unat (chunk r') \<le> unat p
                            \<and> unat p + unat sz \<le> unat (chunk r') + unat (chunk_len r')))))"

text \<open>No region at or behind the tail has room for \<open>sz\<close> bytes at \<open>alignment\<close>.\<close>

definition no_room :: "size_t \<Rightarrow> size_t \<Rightarrow> uintptr_t \<Rightarrow> heap \<Rightarrow> uintptr_t list \<Rightarrow> bool" where
  "no_room sz alignment arena h ps =
     (case arenas h arena of
        None \<Rightarrow> True
      | Some a \<Rightarrow>
          list_all (\<lambda>q. position (tail a) ps \<le> position q ps \<longrightarrow>
                      (case lzregion_available_alignment alignment q h of
                         None \<Rightarrow> False
                       | Some available \<Rightarrow> available < sz)) ps)"

section \<open>Properties\<close>

subsection \<open>Alignment utilities\<close>

text \<open>
  Claim C6 says that \<open>is_power_of_two\<close> is true exactly on the words with one set bit, and
  false on \<open>0\<close>. The test \<open>(x & (x - 1)) == 0\<close> of the source accepts \<open>0\<close>, which has no
  set bit: evaluating the function at \<open>0\<close> gives true.
\<close>

theorem is_power_of_two_accepts_zero:
  "is_power_of_two 0 \<and> card {n. bit (0 :: uintptr_t) n} \<noteq> 1"
  by (simp add: is_power_of_two_def)


text \<open>What the test of the source does accept: zero and the powers of two.\<close>

lemma nat_and_pred: "0 < m \<Longrightarrow> (m AND (m - 1) = (0::nat)) \<longleftrightarrow> (\<exists>n. m = 2 ^ n)"
proof (induction m rule: less_induct)
  case (less m)
  show ?case
  proof (cases "even m")
    case True
    then obtain k where k: "m = 2 * k" by (auto elim: evenE)
    with less.prems have kpos: "0 < k" by simp
    have "(m - 1) div 2 = k - 1" "odd (m - 1)" using k kpos by auto
    then have eq: "m AND (m - 1) = 2 * (k AND (k - 1))"
      using k by (subst and_nat_rec) simp
    have "(k AND (k - 1) = 0) \<longleftrightarrow> (\<exists>n. k = 2 ^ n)"
      using less.IH[of k] k kpos by simp
    moreover have "(\<exists>n. k = 2 ^ n) \<longleftrightarrow> (\<exists>n. m = 2 ^ n)"
    proof
      assume "\<exists>n. k = 2 ^ n"
      then obtain n where "k = 2 ^ n" ..
      then have "m = 2 ^ Suc n" using k by simp
      then show "\<exists>n. m = 2 ^ n" ..
    next
      assume "\<exists>n. m = 2 ^ n"
      then obtain n where n: "m = 2 ^ n" ..
      with k kpos have "n \<noteq> 0" by (cases n) auto
      then obtain n' where "n = Suc n'" by (cases n) auto
      with n k have "k = 2 ^ n'" by simp
      then show "\<exists>n. k = 2 ^ n" ..
    qed
    ultimately show ?thesis using eq by simp
  next
    case False
    then obtain k where k: "m = 2 * k + 1" by (auto elim: oddE)
    have eq: "m AND (m - 1) = 2 * k"
      using k by (subst and_nat_rec) simp
    have "(k = 0) \<longleftrightarrow> (\<exists>n. m = 2 ^ n)"
    proof
      assume "k = 0"
      then have "m = 2 ^ 0" using k by simp
      then show "\<exists>n. m = 2 ^ n" ..
    next
      assume "\<exists>n. m = 2 ^ n"
      then obtain n where n: "m = 2 ^ n" ..
      with False have "n = 0" by (cases n) auto
      with n k show "k = 0" by simp
    qed
    then show ?thesis using eq by simp
  qed
qed

lemma unat_pow2: "n < 64 \<Longrightarrow> unat ((2::64 word) ^ n) = 2 ^ n"
proof -
  assume n: "n < 64"
  have "(2::64 word) ^ n = of_nat (2 ^ n)" by simp
  then have "unat ((2::64 word) ^ n) = 2 ^ n mod 2 ^ LENGTH(64)"
    by (simp only: unat_of_nat)
  moreover have "(2::nat) ^ n < 2 ^ LENGTH(64)"
    using n by (simp only: len_bit0 len_num1 power_strict_increasing_iff)
  ultimately show ?thesis by (simp only: mod_less)
qed

lemma and_pred_pow2_unat:
  "unat ((a::64 word) AND (2 ^ n - 1)) = unat a mod 2 ^ n"
proof -
  have "a AND (2 ^ n - 1) = take_bit n a"
    by (simp add: take_bit_eq_mask mask_eq_decr_exp)
  then have "unat (a AND (2 ^ n - 1)) = unat (take_bit n a)"
    by (simp only:)
  also have "\<dots> = take_bit n (unat a)"
    by (rule unsigned_take_bit_eq)
  also have "\<dots> = unat a mod 2 ^ n"
    by (rule take_bit_eq_mod)
  finally show ?thesis .
qed

lemma is_power_of_two_iff:
  "is_power_of_two x \<longleftrightarrow> x = 0 \<or> (\<exists>n<64. x = 2 ^ n)"
proof (cases "x = 0")
  case True
  then show ?thesis by (simp add: is_power_of_two_def)
next
  case False
  then have pos: "0 < unat x" by (simp add: unat_gt_0)
  have "is_power_of_two x \<longleftrightarrow> unat (x AND (x - 1)) = 0"
    by (simp add: is_power_of_two_def unat_eq_0)
  also have "\<dots> \<longleftrightarrow> unat x AND (unat x - 1) = 0"
    using False by (simp add: unsigned_and_eq unat_minus_one)
  also have "\<dots> \<longleftrightarrow> (\<exists>n. unat x = 2 ^ n)"
    using pos by (rule nat_and_pred)
  also have "\<dots> \<longleftrightarrow> (\<exists>n<64. x = 2 ^ n)"
  proof
    assume "\<exists>n. unat x = 2 ^ n"
    then obtain n where n: "unat x = 2 ^ n" ..
    have lt: "unat x < 2 ^ 64" using unsigned_less[of x] by simp
    have n64: "n < 64"
    proof (rule ccontr)
      assume "\<not> n < 64"
      then have "(2::nat) ^ 64 \<le> 2 ^ n" by (intro power_increasing) auto
      with lt n show False by simp
    qed
    then have "unat ((2::64 word) ^ n) = unat x" using n by (simp add: unat_pow2)
    then have "x = 2 ^ n" by (simp add: word_unat_eq_iff)
    with n64 show "\<exists>n<64. x = 2 ^ n" by blast
  next
    assume "\<exists>n<64. x = 2 ^ n"
    then obtain n where "n < 64" "x = 2 ^ n" by blast
    then have "unat x = 2 ^ n" by (simp add: unat_pow2)
    then show "\<exists>n. unat x = 2 ^ n" ..
  qed
  finally show ?thesis using False by simp
qed

text \<open>Rounding up to a multiple of a power of two stays in the lower half of the address space.\<close>

lemma round_up_bound:
  fixes a :: nat
  assumes "n \<le> 63" "a \<le> 2 ^ 63" "a mod 2 ^ n \<noteq> 0"
  shows "a + (2 ^ n - a mod 2 ^ n) \<le> 2 ^ 63" "2 ^ n dvd a + (2 ^ n - a mod 2 ^ n)"
proof -
  let ?A = "(2::nat) ^ n"
  have mlt: "a mod ?A < ?A" by simp
  have "a + (?A - a mod ?A) = (a - a mod ?A) + ?A"
    using mlt by simp
  also have "a - a mod ?A = ?A * (a div ?A)"
    by (simp add: minus_mod_eq_mult_div)
  finally have eq: "a + (?A - a mod ?A) = ?A * (a div ?A + 1)" by simp
  show "?A dvd a + (?A - a mod ?A)" unfolding eq by simp
  have p: "(2::nat) ^ 63 = ?A * 2 ^ (63 - n)"
    using assms(1) by (simp only: flip: power_add) simp
  have "a \<noteq> 2 ^ 63"
  proof
    assume "a = 2 ^ 63"
    then have "a mod ?A = 0" by (simp only: p mod_mult_self1_is_0)
    with assms(3) show False by simp
  qed
  with assms(2) have "a < ?A * 2 ^ (63 - n)" by (simp only: flip: p)
  then have "a div ?A < 2 ^ (63 - n)"
    by (simp only: less_mult_imp_div_less mult.commute)
  then have "a div ?A + 1 \<le> 2 ^ (63 - n)" by simp
  then have "?A * (a div ?A + 1) \<le> ?A * 2 ^ (63 - n)" by (rule mult_le_mono2)
  then show "a + (?A - a mod ?A) \<le> 2 ^ 63" unfolding eq p .
qed
text \<open>
  \<open>align_forward\<close> on a non-zero power of two and an address of the lower half: the result is
  the least multiple of the alignment that is not below the address.
\<close>

lemma align_forward_props:
  assumes nz: "alignment \<noteq> 0" and p2: "is_power_of_two alignment" and lo: "unat addr \<le> 2 ^ 63"
  obtains r where "align_forward addr alignment = Some r"
    and "unat addr \<le> unat r" and "unat r < unat addr + unat alignment"
    and "unat alignment dvd unat r" and "unat r \<le> 2 ^ 63"
proof -
  from nz p2 obtain n where n: "n < 64" "alignment = 2 ^ n"
    by (auto simp: is_power_of_two_iff)
  let ?A = "(2::nat) ^ n"
  have uA: "unat alignment = ?A" using n by (simp add: unat_pow2)
  let ?m = "addr AND (alignment - 1)"
  have um: "unat ?m = unat addr mod ?A" using n by (simp add: and_pred_pow2_unat)
  show thesis
  proof (cases "?m = 0")
    case True
    then have "unat addr mod ?A = 0" using um by simp
    then have "?A dvd unat addr" by (simp add: mod_eq_0_iff_dvd)
    moreover have "align_forward addr alignment = Some addr"
      using True p2 by (simp add: align_forward_def Let_def)
    moreover have "0 < ?A" by simp
    ultimately show ?thesis using that[of addr] lo uA by simp
  next
    case False
    then have "unat ?m \<noteq> 0" by (simp only: unat_eq_0 not_False_eq_True)
    with um have mnz: "unat addr mod ?A \<noteq> 0" by metis
    have mle: "?m \<le> alignment"
      using um uA by (simp add: word_le_nat_alt less_imp_le_nat)
    have upad: "unat (alignment - ?m) = ?A - unat addr mod ?A"
      using mle um uA by (simp add: unat_sub)
    have b: "unat addr + (?A - unat addr mod ?A) \<le> 2 ^ 63"
      and d: "?A dvd unat addr + (?A - unat addr mod ?A)"
      using round_up_bound[of n "unat addr"] n lo mnz by simp_all
    have "unat (alignment - ?m) + unat addr < 2 ^ LENGTH(64)"
      using b upad by simp
    then have ur: "unat ((alignment - ?m) + addr) = unat addr + (?A - unat addr mod ?A)"
      using upad by (simp add: unat_add_lem[THEN iffD1])
    have af: "align_forward addr alignment = Some ((alignment - ?m) + addr)"
      using False p2 by (simp add: align_forward_def Let_def)
    have mpos: "0 < unat addr mod ?A" using mnz by simp
    show ?thesis
    proof (rule that[OF af])
      have mlt: "unat addr mod ?A < ?A" by simp
      show "unat addr \<le> unat ((alignment - ?m) + addr)" unfolding ur by (rule le_add1)
      show "unat ((alignment - ?m) + addr) < unat addr + unat alignment"
        unfolding ur uA using mpos mlt by linarith
      show "unat alignment dvd unat ((alignment - ?m) + addr)" unfolding ur uA by (rule d)
      show "unat ((alignment - ?m) + addr) \<le> 2 ^ 63" unfolding ur by (rule b)
    qed
  qed
qed


lemma unat_add_no_wrap:
  "unat (a::64 word) + unat b \<le> 2 ^ 63 \<Longrightarrow> unat (a + b) = unat a + unat b"
proof -
  assume "unat a + unat b \<le> 2 ^ 63"
  then have "unat a + unat b < 2 ^ LENGTH(64)" by simp
  then show ?thesis by (simp only: unat_add_lem)
qed

lemma round_up_le_pow2:
  fixes a :: nat
  assumes "n \<le> N" "a \<le> 2 ^ N" "a mod 2 ^ n \<noteq> 0"
  shows "a + (2 ^ n - a mod 2 ^ n) \<le> 2 ^ N"
proof -
  let ?A = "(2::nat) ^ n"
  have mlt: "a mod ?A < ?A" by simp
  have "a + (?A - a mod ?A) = (a - a mod ?A) + ?A"
    using mlt by simp
  also have "a - a mod ?A = ?A * (a div ?A)"
    by (simp add: minus_mod_eq_mult_div)
  finally have eq: "a + (?A - a mod ?A) = ?A * (a div ?A + 1)" by simp
  have p: "(2::nat) ^ N = ?A * 2 ^ (N - n)"
    using assms(1) by (simp only: flip: power_add) simp
  have "a \<noteq> 2 ^ N"
  proof
    assume "a = 2 ^ N"
    then have "a mod ?A = 0" by (simp only: p mod_mult_self1_is_0)
    with assms(3) show False by simp
  qed
  with assms(2) have "a < ?A * 2 ^ (N - n)" by (simp only: flip: p)
  then have "a div ?A < 2 ^ (N - n)"
    by (simp only: less_mult_imp_div_less mult.commute)
  then have "a div ?A + 1 \<le> 2 ^ (N - n)" by simp
  then have "?A * (a div ?A + 1) \<le> ?A * 2 ^ (N - n)" by (rule mult_le_mono2)
  then show "a + (?A - a mod ?A) \<le> 2 ^ N" unfolding eq p .
qed

text \<open>
  Anywhere in the address space, \<open>align_forward\<close> on a non-zero power of two returns an
  address that is not below its argument, or wraps around to \<open>0\<close>.
\<close>

lemma align_forward_wraps:
  assumes nz: "alignment \<noteq> 0" and p2: "is_power_of_two alignment"
  shows "\<exists>r. align_forward addr alignment = Some r \<and> (r = 0 \<or> unat addr \<le> unat r)"
proof -
  from nz p2 obtain n where n: "n < 64" "alignment = 2 ^ n"
    by (auto simp: is_power_of_two_iff)
  let ?A = "(2::nat) ^ n"
  have uA: "unat alignment = ?A" using n by (simp add: unat_pow2)
  let ?m = "addr AND (alignment - 1)"
  have um: "unat ?m = unat addr mod ?A" using n by (simp add: and_pred_pow2_unat)
  show ?thesis
  proof (cases "?m = 0")
    case True
    then have "align_forward addr alignment = Some addr"
      using p2 by (simp add: align_forward_def Let_def)
    then show ?thesis by simp
  next
    case False
    then have "unat ?m \<noteq> 0" by (simp only: unat_eq_0 not_False_eq_True)
    with um have mnz: "unat addr mod ?A \<noteq> 0" by metis
    have mle: "?m \<le> alignment"
      using um uA by (simp add: word_le_nat_alt less_imp_le_nat)
    have upad: "unat (alignment - ?m) = ?A - unat addr mod ?A"
      using mle um uA by (simp add: unat_sub)
    have "unat addr < 2 ^ LENGTH(64)" by (rule unsigned_less)
    then have a64: "unat addr \<le> 2 ^ 64" by simp
    have n64: "n \<le> 64" using n(1) by simp
    have b: "unat addr + (?A - unat addr mod ?A) \<le> 2 ^ 64"
      using n64 a64 mnz by (rule round_up_le_pow2)
    have af: "align_forward addr alignment = Some ((alignment - ?m) + addr)"
      using False p2 by (simp add: align_forward_def Let_def)
    have comm: "unat (alignment - ?m) + unat addr = unat addr + (?A - unat addr mod ?A)"
      using upad by linarith
    have "unat ((alignment - ?m) + addr) = (unat (alignment - ?m) + unat addr) mod 2 ^ LENGTH(64)"
      by (rule unat_word_ariths(1))
    then have ur: "unat ((alignment - ?m) + addr) = (unat addr + (?A - unat addr mod ?A)) mod 2 ^ 64"
      unfolding comm by simp
    show ?thesis
    proof (cases "unat addr + (?A - unat addr mod ?A) = 2 ^ 64")
      case True
      then have "unat ((alignment - ?m) + addr) = 0" using ur by simp
      then have "(alignment - ?m) + addr = 0" by (simp only: unat_eq_0)
      with af show ?thesis by simp
    next
      case False
      with b have "unat addr + (?A - unat addr mod ?A) < 2 ^ 64" by simp
      then have "unat ((alignment - ?m) + addr) = unat addr + (?A - unat addr mod ?A)"
        using ur by simp
      then have "unat addr \<le> unat ((alignment - ?m) + addr)" by (simp only: le_add1)
      with af show ?thesis by simp
    qed
  qed
qed

lemma word_mult_pow2_ge:
  assumes "k < 64"
  shows "(2 ^ k * w :: 64 word) = 0 \<or> 2 ^ k \<le> unat (2 ^ k * w :: 64 word)"
proof -
  have "unat (2 ^ k * w :: 64 word) = (unat (2 ^ k :: 64 word) * unat w) mod 2 ^ LENGTH(64)"
    by (rule unat_word_ariths(2))
  then have u: "unat (2 ^ k * w :: 64 word) = (2 ^ k * unat w) mod 2 ^ 64"
    using assms by (simp add: unat_pow2)
  have "(2::nat) ^ k dvd 2 ^ 64" using assms by (intro le_imp_power_dvd) simp
  moreover have "(2::nat) ^ k dvd 2 ^ k * unat w" by simp
  ultimately have d: "(2::nat) ^ k dvd (2 ^ k * unat w) mod 2 ^ 64" by (simp only: dvd_mod)
  show ?thesis
  proof (cases "2 ^ k * w = (0 :: 64 word)")
    case True
    then show ?thesis by simp
  next
    case False
    then have "0 < unat (2 ^ k * w :: 64 word)" by (simp only: unat_gt_0 not_False_eq_True)
    with d u have "2 ^ k \<le> unat (2 ^ k * w :: 64 word)" by (simp only: dvd_imp_le)
    then show ?thesis by simp
  qed
qed


subsection \<open>Regions\<close>

lemma lzregion_available_eq:
  "regions h p = Some r \<Longrightarrow>
   lzregion_available p h = (if offset r < offset r + chunk_len r then Some (chunk_len r) else None)"
  by (simp add: lzregion_available_def Let_def)

text \<open>
  Claim C5 says that \<open>lzregion_available\<close> returns \<open>chunk + chunk_len - offset\<close>. The source
  starts from \<open>region->offset\<close> instead of \<open>region->chunk\<close>, so what it returns is
  \<open>chunk_len\<close> whatever the cursor is: on the used region, 4048 and not the 8 bytes left.
\<close>

theorem lzregion_available_ignores_cursor:
  "lzregion_available 4096 (region_heap 4096 used_region) = Some 4048
   \<and> chunk used_region + chunk_len used_region - offset used_region = 8
   \<and> region_invariant used_region"
  by (simp add: lzregion_available_def region_heap_def used_region_def region_invariant_def)

text \<open>
  Claim C2 says that every region operation preserves the region invariant, also for
  size 0 and large alignments. A request of size 0 always passes the test
  \<open>size > available\<close>, and the cursor is then moved to the aligned address even when that
  address lies beyond the end of the usable span: on the used region, whose span ends at
  8192, \<open>lzregion_alloc_align(0, 16384, region)\<close> returns 16384 and leaves the cursor there.
\<close>

theorem lzregion_alloc_align_zero_breaks_invariant:
  "region_invariant used_region
   \<and> map_option fst (lzregion_alloc_align 0 16384 4096 (region_heap 4096 used_region)) = Some 16384
   \<and> map_option offset
        (region_after 4096 (lzregion_alloc_align 0 16384 4096 (region_heap 4096 used_region))) = Some 16384
   \<and> map_option region_invariant
        (region_after 4096 (lzregion_alloc_align 0 16384 4096 (region_heap 4096 used_region))) = Some False"
  by (simp add: lzregion_alloc_align_def lzregion_available_alignment_def align_forward_def
      is_power_of_two_def region_heap_def used_region_def region_after_def region_invariant_def)

text \<open>The aligned cursor of a well-formed region, and the room behind it.\<close>

lemma lzregion_available_alignment_ok:
  assumes r: "regions h q = Some r" and ok: "region_ok q r"
    and al: "alignment \<noteq> 0" "is_power_of_two alignment"
  obtains off where "align_forward (offset r) alignment = Some off"
    and "unat (offset r) \<le> unat off" and "unat alignment dvd unat off" and "unat off \<le> 2 ^ 63"
    and "lzregion_available_alignment alignment q h =
           Some (if off \<ge> chunk r + chunk_len r then 0 else chunk r + chunk_len r - off)"
    and "unat (if off \<ge> chunk r + chunk_len r then 0 else chunk r + chunk_len r - off)
           = (unat (chunk r) + unat (chunk_len r)) - unat off"
proof -
  from ok have lo: "unat (offset r) \<le> 2 ^ 63" and sp: "unat (chunk r) + unat (chunk_len r) \<le> 2 ^ 63"
    by (simp_all add: region_ok_def)
  from align_forward_props[OF al lo] obtain off where off:
    "align_forward (offset r) alignment = Some off" "unat (offset r) \<le> unat off"
    "unat alignment dvd unat off" "unat off \<le> 2 ^ 63" by blast
  have ue: "unat (chunk r + chunk_len r) = unat (chunk r) + unat (chunk_len r)"
    using sp by (rule unat_add_no_wrap)
  have av: "lzregion_available_alignment alignment q h =
           Some (if off \<ge> chunk r + chunk_len r then 0 else chunk r + chunk_len r - off)"
    using r off(1) by (simp add: lzregion_available_alignment_def Let_def)
  have "unat (if off \<ge> chunk r + chunk_len r then 0 else chunk r + chunk_len r - off)
           = (unat (chunk r) + unat (chunk_len r)) - unat off"
  proof (cases "off \<ge> chunk r + chunk_len r")
    case True
    then show ?thesis using ue by (simp add: word_le_nat_alt)
  next
    case False
    then have "off \<le> chunk r + chunk_len r" by simp
    then have "unat (chunk r + chunk_len r - off) = unat (chunk r + chunk_len r) - unat off"
      by (rule unat_sub)
    then show ?thesis using False ue by simp
  qed
  with off av show thesis using that by blast
qed


text \<open>
  One bump allocation in a well-formed region: either there is too little room and nothing
  changes, or the aligned cursor is returned and the cursor moves behind the block.
\<close>

lemma lzregion_alloc_align_ok:
  assumes r: "regions h q = Some r" and ok: "region_ok q r"
    and al: "alignment \<noteq> 0" "is_power_of_two alignment"
  shows "\<exists>off av. lzregion_available_alignment alignment q h = Some av
           \<and> align_forward (offset r) alignment = Some off
           \<and> (if av < sz then lzregion_alloc_align sz alignment q h = Some (0, h)
               else lzregion_alloc_align sz alignment q h
                      = Some (off, h\<lparr>regions := (regions h)(q \<mapsto> r\<lparr>offset := off + sz\<rparr>)\<rparr>)
                    \<and> off \<noteq> 0 \<and> unat alignment dvd unat off
                    \<and> region_ok q (r\<lparr>offset := off + sz\<rparr>)
                    \<and> block off sz \<subseteq> region_span r
                    \<and> block off sz \<inter> region_used r = {}
                    \<and> region_used r \<union> block off sz \<subseteq> region_used (r\<lparr>offset := off + sz\<rparr>)
                    \<and> (sz \<noteq> 0 \<longrightarrow> unat (chunk r) \<le> unat off
                          \<and> unat off + unat sz \<le> unat (chunk r) + unat (chunk_len r)))"
proof -
  from lzregion_available_alignment_ok[OF r ok al] obtain off where
    off: "align_forward (offset r) alignment = Some off"
    and ge: "unat (offset r) \<le> unat off" and dv: "unat alignment dvd unat off"
    and lo: "unat off \<le> 2 ^ 63"
    and av: "lzregion_available_alignment alignment q h =
           Some (if off \<ge> chunk r + chunk_len r then 0 else chunk r + chunk_len r - off)"
    and uav: "unat (if off \<ge> chunk r + chunk_len r then 0 else chunk r + chunk_len r - off)
           = (unat (chunk r) + unat (chunk_len r)) - unat off"
    by blast
  let ?av = "if off \<ge> chunk r + chunk_len r then 0 else chunk r + chunk_len r - off"
  let ?e = "unat (chunk r) + unat (chunk_len r)"
  from ok have qc: "unat q < unat (chunk r)" and co: "unat (chunk r) \<le> unat (offset r)"
    and e63: "?e \<le> 2 ^ 63" and len: "0 < unat (chunk_len r)" and q0: "q \<noteq> 0"
    by (simp_all add: region_ok_def)
  show ?thesis
  proof (cases "?av < sz")
    case True
    then have "lzregion_alloc_align sz alignment q h = Some (0, h)"
      using av by (simp add: lzregion_alloc_align_def)
    with True av off show ?thesis by auto
  next
    case False
    then have szle: "unat sz \<le> ?e - unat off"
      using uav by (simp add: word_less_nat_alt)
    have run: "lzregion_alloc_align sz alignment q h
                 = Some (off, h\<lparr>regions := (regions h)(q \<mapsto> r\<lparr>offset := off + sz\<rparr>)\<rparr>)"
      using False av off r by (simp add: lzregion_alloc_align_def)
    have "0 < unat off" using qc co ge by linarith
    then have off0: "off \<noteq> 0" by (simp add: unat_gt_0)
    have sum: "unat off + unat sz \<le> 2 ^ 63"
      using szle lo e63 by linarith
    then have us: "unat (off + sz) = unat off + unat sz"
      by (rule unat_add_no_wrap)
    have within: "sz \<noteq> 0 \<longrightarrow> unat (chunk r) \<le> unat off \<and> unat off + unat sz \<le> ?e"
    proof
      assume "sz \<noteq> 0"
      then have "0 < unat sz" by (simp add: unat_gt_0)
      with szle have "unat off + unat sz \<le> ?e" by linarith
      with co ge show "unat (chunk r) \<le> unat off \<and> unat off + unat sz \<le> ?e" by linarith
    qed
    have sz0: "sz = 0 \<Longrightarrow> unat sz = 0" by simp
    have ok': "region_ok q (r\<lparr>offset := off + sz\<rparr>)"
      using ok us sum co ge by (simp add: region_ok_def)
    have b1: "block off sz \<subseteq> region_span r"
      using within sz0 by (cases "sz = 0") (auto simp: block_def region_span_def)
    have b2: "block off sz \<inter> region_used r = {}"
      using ge by (auto simp: block_def region_used_def)
    have b3: "region_used r \<union> block off sz \<subseteq> region_used (r\<lparr>offset := off + sz\<rparr>)"
      using within sz0 us ge co by (cases "sz = 0") (auto simp: block_def region_used_def)
    show ?thesis
      using False av off run off0 dv ok' b1 b2 b3 within by auto
  qed
qed

text \<open>
  \<open>lzregion_init\<close> on a fresh buffer of the lower half of the address space: the assertion
  fails on a buffer of length zero, and otherwise a well-formed region is laid out inside the
  buffer.
\<close>

lemma lzregion_init_fresh:
  assumes cfg: "config_ok cfg" and b0: "b \<noteq> 0" and lo: "unat b + unat len \<le> 2 ^ 63"
    and len: "len = 0 \<or> unat (PAGE_SIZE cfg) \<le> unat len"
  shows "if len = 0 then lzregion_init cfg len b h = None
         else \<exists>q r. lzregion_init cfg len b h = Some (q, h\<lparr>regions := (regions h)(q \<mapsto> r)\<rparr>)
                \<and> region_ok q r \<and> offset r = chunk r \<and> next r = 0 \<and> region_len r = len
                \<and> unat b \<le> unat q
                \<and> unat (chunk r) + unat (chunk_len r) = unat b + unat len"
proof -
  let ?A = "LZARENA_DEFAULT_ALIGNMENT cfg"
  let ?RS = "REGION_SIZE cfg"
  from cfg have A: "?A \<noteq> 0" "is_power_of_two ?A" and RS0: "?RS \<noteq> 0"
    and room: "unat ?RS + 2 * unat ?A \<le> unat (PAGE_SIZE cfg)"
    by (simp_all add: config_ok_def)
  from cfg obtain k where k: "k < 64" "PAGE_SIZE cfg = 2 ^ k"
    by (auto simp: config_ok_def is_power_of_two_iff)
  have "(2::nat) ^ k \<le> 2 ^ 63" using k(1) by (intro power_increasing) simp_all
  then have page: "unat (PAGE_SIZE cfg) \<le> 2 ^ 63" using k by (simp add: unat_pow2)
  have RSpos: "0 < unat ?RS" using RS0 by (simp add: unat_gt_0)
  have bpos: "0 < unat b" using b0 by (simp add: unat_gt_0)
  have ub: "unat b \<le> 2 ^ 63" using lo by simp
  from align_forward_props[OF A ub] obtain rs where rs:
    "align_forward b ?A = Some rs" "unat b \<le> unat rs" "unat rs < unat b + unat ?A" "unat rs \<le> 2 ^ 63"
    by blast
  have Apos: "0 < unat ?A" using A(1) by (simp add: unat_gt_0)
  have "unat rs + unat ?RS < 2 ^ LENGTH(64)"
    using rs(4) room page Apos by simp
  then have ure: "unat (rs + ?RS) = unat rs + unat ?RS"
    by (simp only: unat_add_lem)
  have ube: "unat (b + len) = unat b + unat len"
    using lo by (rule unat_add_no_wrap)
  show ?thesis
  proof (cases "len = 0")
    case True
    from align_forward_wraps[OF A, of "rs + ?RS"] obtain cs where cs:
      "align_forward (rs + ?RS) ?A = Some cs" "cs = 0 \<or> unat (rs + ?RS) \<le> unat cs" by blast
    have "lzregion_init cfg len b h = None"
    proof (cases "cs = 0")
      case True
      then show ?thesis
        using rs(1) cs(1) \<open>len = 0\<close> by (simp add: lzregion_init_def Let_def)
    next
      case False
      with cs(2) have "unat b < unat cs" using ure rs(2) RSpos by linarith
      then have "\<not> cs \<le> b" by (simp add: word_le_nat_alt)
      then show ?thesis
        using rs(1) cs(1) \<open>len = 0\<close> by (simp add: lzregion_init_def Let_def)
    qed
    with True show ?thesis by simp
  next
    case False
    with len have big: "unat (PAGE_SIZE cfg) \<le> unat len" by simp
    have "unat (rs + ?RS) \<le> 2 ^ 63"
      using ure rs(3) room big lo by linarith
    from align_forward_props[OF A this] obtain cs where cs:
      "align_forward (rs + ?RS) ?A = Some cs" "unat (rs + ?RS) \<le> unat cs"
      "unat cs < unat (rs + ?RS) + unat ?A" by blast
    have cs_lt: "unat cs < unat b + unat len"
      using cs(3) ure rs(3) room big by linarith
    have cs_gt: "unat b < unat cs" "unat rs < unat cs"
      using cs(2) ure rs(2) RSpos by linarith+
    have le: "cs \<le> b + len"
      using cs_lt ube by (simp add: word_le_nat_alt)
    then have ucl: "unat (b + len - cs) = unat b + unat len - unat cs"
      using ube by (simp add: unat_sub)
    have lt: "b + len - cs < len"
      using ucl cs_gt(1) cs_lt by (simp add: word_less_nat_alt)
    let ?r = "\<lparr>region_len = len, chunk_len = b + len - cs, offset = cs, chunk = cs, next = 0\<rparr>"
    have run: "lzregion_init cfg len b h = Some (rs, h\<lparr>regions := (regions h)(rs \<mapsto> ?r)\<rparr>)"
      using rs(1) cs(1) le lt by (simp add: lzregion_init_def Let_def)
    have "0 < unat rs" using bpos rs(2) by linarith
    then have rs0: "rs \<noteq> 0" by (simp add: unat_gt_0)
    have ok: "region_ok rs ?r"
      using rs0 cs_gt(2) ucl cs_lt lo by (simp add: region_ok_def)
    have "unat (chunk ?r) + unat (chunk_len ?r) = unat b + unat len"
      using ucl cs_lt by simp
    with run ok rs(2) False show ?thesis by auto
  qed
qed


subsection \<open>Chains of regions, bulk reset and report\<close>

lemma region_chain_cong:
  "region_chain rs p ps \<Longrightarrow> (\<And>q. q \<in> set ps \<Longrightarrow> map_option next (rs' q) = map_option next (rs q))
   \<Longrightarrow> region_chain rs' p ps"
proof (induction ps arbitrary: p)
  case Nil
  then show ?case by simp
next
  case (Cons q qs)
  from Cons.prems(1) obtain r where r: "p = q" "q \<noteq> 0" "rs q = Some r" "region_chain rs (next r) qs"
    by (auto split: option.splits)
  from Cons.prems(2)[of q] r obtain r' where r': "rs' q = Some r'" "next r' = next r"
    by (cases "rs' q") auto
  have "region_chain rs' (next r) qs"
    using Cons.IH[OF r(4)] Cons.prems(2) by simp
  then show ?case using r r' by simp
qed

lemma lzarena_free_all_loop_chain:
  "region_chain (regions h) p ps \<Longrightarrow>
   lzarena_free_all_loop p h = Some (h\<lparr>regions := reset_regions (regions h) ps\<rparr>)"
proof (induction ps arbitrary: p h)
  case Nil
  then show ?case
    by (simp add: lzarena_free_all_loop.simps reset_regions_def)
next
  case (Cons q qs)
  from Cons.prems obtain r where r: "p = q" "q \<noteq> 0" "regions h q = Some r"
      "region_chain (regions h) (next r) qs"
    by (auto split: option.splits)
  let ?h1 = "h\<lparr>regions := (regions h)(q \<mapsto> r\<lparr>offset := chunk r\<rparr>)\<rparr>"
  have free: "LZREGION_FREE q h = Some ?h1"
    using r by (simp add: LZREGION_FREE_def)
  have "region_chain (regions ?h1) (next r) qs"
    using r(4) by (rule region_chain_cong) (use r in auto)
  from Cons.IH[OF this]
  have "lzarena_free_all_loop (next r) ?h1 = Some (?h1\<lparr>regions := reset_regions (regions ?h1) qs\<rparr>)" .
  moreover have "reset_regions (regions ?h1) qs = reset_regions (regions h) (q # qs)"
    using r by (auto simp: reset_regions_def fun_eq_iff)
  ultimately show ?case
    using r free by (subst lzarena_free_all_loop.simps) simp
qed

lemma lzarena_report_loop_chain:
  "region_chain (regions h) p ps \<Longrightarrow>
   lzarena_report_loop p u s h =
     (if list_all (\<lambda>q. case regions h q of None \<Rightarrow> False | Some r \<Rightarrow> offset r < offset r + chunk_len r) ps
      then Some (u, s + total_len h ps) else None)"
proof (induction ps arbitrary: p u s)
  case Nil
  then show ?case
    by (simp add: lzarena_report_loop.simps total_len_def)
next
  case (Cons q qs)
  from Cons.prems obtain r where r: "p = q" "q \<noteq> 0" "regions h q = Some r"
      "region_chain (regions h) (next r) qs"
    by (auto split: option.splits)
  show ?case
    using r Cons.IH[OF r(4)]
    by (subst lzarena_report_loop.simps)
       (simp add: lzregion_available_eq total_len_def add.assoc)
qed


lemma list_all_region_okD:
  "list_all (\<lambda>p. case regions h p of None \<Rightarrow> False | Some r \<Rightarrow> region_ok p r) ps \<Longrightarrow> q \<in> set ps
   \<Longrightarrow> \<exists>r. regions h q = Some r \<and> region_ok q r"
  by (auto simp: list_all_iff split: option.splits)

lemma region_ok_span_less:
  assumes "region_ok p r"
  shows "chunk r < chunk r + chunk_len r"
proof -
  from assms have b: "unat (chunk r) + unat (chunk_len r) \<le> 2 ^ 63" and pos: "0 < unat (chunk_len r)"
    by (simp_all add: region_ok_def)
  have "unat (chunk r) + unat (chunk_len r) < 2 ^ LENGTH(64)"
    using b by simp
  then have "unat (chunk r + chunk_len r) = unat (chunk r) + unat (chunk_len r)"
    by (simp only: unat_add_lem)
  then show ?thesis using pos by (simp add: word_less_nat_alt)
qed

text \<open>
  Claim C7: after \<open>lzarena_free_all\<close> the cursor of every region is at its base and \<open>tail\<close>
  equals \<open>head\<close>; nothing else changes (no supplier call is logged, no answer of the supplier
  is consumed, every link, length and byte is retained), and a report that follows returns
  0 used bytes and the same total. The call and the report return on every arena that
  satisfies the arena invariant.
\<close>

theorem lzarena_free_all_resets:
  assumes inv: "arena_invariant h arena ps" and a: "arenas h arena = Some a"
  shows "let h' = h\<lparr>regions := reset_regions (regions h) ps,
                     arenas := (arenas h)(arena \<mapsto> a\<lparr>tail := head a\<rparr>)\<rparr>
         in lzarena_free_all arena h = Some h'
            \<and> list_all (\<lambda>p. map_option offset (regions h' p) = map_option chunk (regions h p)
                             \<and> regions h p \<noteq> None) ps
            \<and> region_chain (regions h') (head a) ps
            \<and> calls h' = calls h \<and> pending h' = pending h \<and> bytes h' = bytes h
            \<and> lzarena_report arena h' = Some (0, total_len h ps)
            \<and> (\<forall>u s. lzarena_report arena h = Some (u, s) \<longrightarrow> s = total_len h ps)
            \<and> arena_invariant h' arena ps"
proof -
  let ?rs' = "reset_regions (regions h) ps"
  let ?h1 = "h\<lparr>regions := ?rs'\<rparr>"
  let ?h' = "h\<lparr>regions := ?rs', arenas := (arenas h)(arena \<mapsto> a\<lparr>tail := head a\<rparr>)\<rparr>"
  from inv a have chain: "region_chain (regions h) (head a) ps"
    and tl: "if ps = [] then tail a = 0 else tail a \<in> set ps"
    and ok: "list_all (\<lambda>p. case regions h p of None \<Rightarrow> False | Some r \<Rightarrow> region_ok p r) ps"
    and ap: "pairwise_apart (map (extent h) ps)"
    by (simp_all add: arena_invariant_def)
  have run: "lzarena_free_all arena h = Some ?h'"
    using a lzarena_free_all_loop_chain[OF chain] by (simp add: lzarena_free_all_def)
  have reg: "\<And>q. q \<in> set ps \<Longrightarrow> \<exists>r. regions h q = Some r \<and> region_ok q r
                \<and> ?rs' q = Some (r\<lparr>offset := chunk r\<rparr>)"
    using list_all_region_okD[OF ok] by (fastforce simp: reset_regions_def)
  have cursors: "list_all (\<lambda>p. map_option offset (regions ?h' p) = map_option chunk (regions h p)
                             \<and> regions h p \<noteq> None) ps"
    using reg by (fastforce simp: list_all_iff)
  have chain': "region_chain ?rs' (head a) ps"
    using chain by (rule region_chain_cong) (use reg in fastforce)
  have ok': "list_all (\<lambda>p. case ?rs' p of None \<Rightarrow> False | Some r \<Rightarrow> region_ok p r) ps"
    using reg by (fastforce simp: list_all_iff region_ok_def)
  have ext: "map (extent ?h') ps = map (extent h) ps"
    using reg by (fastforce simp: extent_def)
  have hd: "ps \<noteq> [] \<Longrightarrow> head a \<in> set ps"
    using chain by (cases ps) auto
  have hd0: "ps = [] \<Longrightarrow> head a = 0"
    using chain by simp
  have ap': "pairwise_apart (map (extent ?h') ps)"
    unfolding ext by (rule ap)
  have inv': "arena_invariant ?h' arena ps"
    using chain' ok' ap' hd hd0 by (simp add: arena_invariant_def)
  have nowrap: "list_all (\<lambda>q. case regions ?h' q of None \<Rightarrow> False
                               | Some r \<Rightarrow> offset r < offset r + chunk_len r) ps"
  proof -
    have "\<And>q. q \<in> set ps \<Longrightarrow> case ?rs' q of None \<Rightarrow> False | Some r \<Rightarrow> offset r < offset r + chunk_len r"
    proof -
      fix q assume "q \<in> set ps"
      from reg[OF this] obtain r where r: "region_ok q r" "?rs' q = Some (r\<lparr>offset := chunk r\<rparr>)"
        by blast
      show "case ?rs' q of None \<Rightarrow> False | Some r \<Rightarrow> offset r < offset r + chunk_len r"
        using region_ok_span_less[OF r(1)] r(2) by simp
    qed
    then show ?thesis by (simp add: list_all_iff)
  qed
  have tot: "total_len ?h' ps = total_len h ps"
  proof -
    have "map (\<lambda>q. case regions ?h' q of None \<Rightarrow> 0 | Some r \<Rightarrow> chunk_len r) ps
        = map (\<lambda>q. case regions h q of None \<Rightarrow> 0 | Some r \<Rightarrow> chunk_len r) ps"
      using reg by (fastforce)
    then show ?thesis by (simp only: total_len_def)
  qed
  have rep': "lzarena_report arena ?h' = Some (0, total_len h ps)"
    using lzarena_report_loop_chain[of ?h' "head a" ps 0 0] chain' nowrap tot
    by (simp add: lzarena_report_def)
  have rep: "\<forall>u s. lzarena_report arena h = Some (u, s) \<longrightarrow> s = total_len h ps"
    using lzarena_report_loop_chain[OF chain, of 0 0] a
    by (auto simp: lzarena_report_def split: if_splits)
  show ?thesis
    unfolding Let_def using run cursors chain' rep' rep inv' by simp
qed


lemma demo_heap_invariant: "arena_invariant demo_heap 1024 [4096, 16384]"
  by (simp add: arena_invariant_def demo_heap_def region_ok_def extent_def apart_def)

theorem lzarena_free_all_resets_witness:
  "arena_invariant demo_heap 1024 [4096, 16384]
   \<and> (case lzarena_free_all 1024 demo_heap of
        None \<Rightarrow> False
      | Some h' \<Rightarrow>
          map_option offset (regions h' 4096) = Some 4144
          \<and> map_option offset (regions h' 16384) = Some 16432
          \<and> map_option tail (arenas h' 1024) = Some 4096
          \<and> calls h' = calls demo_heap
          \<and> lzarena_report 1024 h' = Some (0, 8096))"
proof -
  have a: "arenas demo_heap 1024 = Some \<lparr>head = 4096, tail = 16384, allocator = 0\<rparr>"
    by (simp add: demo_heap_def)
  show ?thesis
    using lzarena_free_all_resets[OF demo_heap_invariant a] demo_heap_invariant
    by (simp add: Let_def reset_regions_def total_len_def demo_heap_def)
qed

subsection \<open>Teardown\<close>

text \<open>
  Claim C10: \<open>lzarena_destroy(NULL)\<close> and \<open>lzregion_destroy(NULL)\<close> return at once: the
  state, and with it the log of supplier calls, is the one before the call.
\<close>

theorem destroy_null_is_no_op:
  "lzarena_destroy cfg 0 h = Some h \<and> lzregion_destroy 0 h = Some h"
  by (simp add: lzarena_destroy_def lzregion_destroy_def)
  

subsection \<open>Growing the chain\<close>

lemma region_chain_nonzero: "region_chain rs p ps \<Longrightarrow> 0 \<notin> set ps"
  by (induction ps arbitrary: p) (auto split: option.splits)

lemma region_chain_head: "region_chain rs p (q # qs) \<Longrightarrow> p = q"
  by simp

lemma region_chain_split:
  "region_chain rs p (xs @ y # ys) \<Longrightarrow> region_chain rs y (y # ys)"
proof (induction xs arbitrary: p)
  case Nil
  then show ?case by simp
next
  case (Cons x xs)
  from Cons.prems obtain r :: LZRegion where "region_chain rs (next r) (xs @ y # ys)"
    by (auto split: option.splits)
  then show ?case by (rule Cons.IH)
qed

lemma region_chain_unique:
  "region_chain rs p xs \<Longrightarrow> region_chain rs p ys \<Longrightarrow> xs = ys"
proof (induction xs arbitrary: p ys)
  case Nil
  then show ?case by (cases ys) auto
next
  case (Cons x xs)
  then show ?case by (cases ys) (auto split: option.splits)
qed

lemma region_chain_distinct: "region_chain rs p ps \<Longrightarrow> distinct ps"
proof (induction ps arbitrary: p)
  case Nil
  then show ?case by simp
next
  case (Cons q qs)
  from Cons.prems obtain r where r: "p = q" "rs q = Some r" "region_chain rs (next r) qs"
    by (auto split: option.splits)
  have "q \<notin> set qs"
  proof
    assume "q \<in> set qs"
    then obtain us vs where qs: "qs = us @ q # vs" by (auto simp: in_set_conv_decomp)
    with r(3) have "region_chain rs q (q # vs)" by (simp only: region_chain_split)
    with Cons.prems r(1) have "q # vs = q # qs" by (simp only: region_chain_unique)
    with qs show False by simp
  qed
  with Cons.IH[OF r(3)] show ?case by simp
qed

lemma region_chain_last:
  "region_chain rs p ps \<Longrightarrow> ps \<noteq> [] \<Longrightarrow> \<exists>r. rs (last ps) = Some r \<and> next r = 0"
proof (induction ps arbitrary: p)
  case Nil
  then show ?case by simp
next
  case (Cons q qs)
  then show ?case by (cases qs) (auto split: option.splits)
qed

lemma region_chain_next_zero:
  "region_chain rs p (xs @ [y]) \<Longrightarrow> rs y = Some r \<Longrightarrow> next r = 0"
  using region_chain_last[of rs p "xs @ [y]"] by simp

lemma region_chain_next_nonzero:
  "region_chain rs p (y # z # zs) \<Longrightarrow> rs y = Some r \<Longrightarrow> next r = z \<and> z \<noteq> 0"
  by (auto split: option.splits)

lemma lzregion_available_alignment_arenas [simp]:
  "lzregion_available_alignment alignment q (h\<lparr>arenas := x\<rparr>) = lzregion_available_alignment alignment q h"
  by (simp add: lzregion_available_alignment_def)

lemma loop_tail_arenas [simp]:
  "loop_tail sz alignment (h\<lparr>arenas := x\<rparr>) ts = loop_tail sz alignment h ts"
  by (induction sz alignment h ts rule: loop_tail.induct) (simp_all split: option.splits)

lemma heap_arenas_upd_upd:
  "(h\<lparr>arenas := (arenas h)(arena \<mapsto> a1)\<rparr>)\<lparr>arenas :=
      (arenas (h\<lparr>arenas := (arenas h)(arena \<mapsto> a1)\<rparr>))(arena \<mapsto> a2)\<rparr>
   = h\<lparr>arenas := (arenas h)(arena \<mapsto> a2)\<rparr>"
  by simp

text \<open>
  The search loop of \<open>lzarena_alloc_align\<close> on a chain \<open>ts\<close> that starts at the tail:
  only \<open>tail\<close> changes, to the region that \<open>loop_tail\<close> computes.
\<close>

lemma lzarena_alloc_align_loop_ok:
  assumes "region_chain (regions h) (tail a) ts" and "ts \<noteq> []"
    and "arenas h arena = Some a"
    and "\<And>q. q \<in> set ts \<Longrightarrow> \<exists>r. regions h q = Some r \<and> region_ok q r"
    and al: "alignment \<noteq> 0" "is_power_of_two alignment"
  shows "lzarena_alloc_align_loop sz alignment arena h
               = Some (h\<lparr>arenas := (arenas h)(arena \<mapsto> a\<lparr>tail := loop_tail sz alignment h ts\<rparr>)\<rparr>)"
  using assms(1-4)
proof (induction ts arbitrary: a h)
  case Nil
  then show ?case by simp
next
  case (Cons t ts)
  from Cons.prems(1) have t: "tail a = t" by simp
  from Cons.prems(4)[of t] obtain r where r: "regions h t = Some r" "region_ok t r" by auto
  from lzregion_available_alignment_ok[OF r al] obtain av where
    av: "lzregion_available_alignment alignment t h = Some av" by metis
  have same: "h\<lparr>arenas := (arenas h)(arena \<mapsto> a\<lparr>tail := t\<rparr>)\<rparr> = h"
    using Cons.prems(3) t by (simp add: map_upd_triv)
  show ?case
  proof (cases ts)
    case Nil
    with Cons.prems(1) r have "next r = 0" by simp
    then have "lzarena_alloc_align_loop sz alignment arena h = Some h"
      using Cons.prems(3) t r by (subst lzarena_alloc_align_loop.simps) simp
    then show ?thesis unfolding Nil by (simp only: loop_tail.simps same)
  next
    case (Cons u us)
    have nx: "next r = u" "u \<noteq> 0"
      using Cons.prems(1) r Cons by simp_all
    show ?thesis
    proof (cases "av < sz")
      case False
      then have "lzarena_alloc_align_loop sz alignment arena h = Some h"
        using Cons.prems(3) t r nx av by (subst lzarena_alloc_align_loop.simps) simp
      then show ?thesis
        unfolding Cons by (simp only: loop_tail.simps av option.case False if_False same)
    next
      case True
      let ?a1 = "a\<lparr>tail := u\<rparr>"
      let ?h1 = "h\<lparr>arenas := (arenas h)(arena \<mapsto> ?a1)\<rparr>"
      have step: "lzarena_alloc_align_loop sz alignment arena h
                    = lzarena_alloc_align_loop sz alignment arena ?h1"
        using Cons.prems(3) t r nx av True by (subst lzarena_alloc_align_loop.simps) simp
      have c1: "region_chain (regions ?h1) (tail ?a1) ts"
        using Cons.prems(1) r nx by simp
      have ne: "ts \<noteq> []" using Cons by simp
      have a1: "arenas ?h1 arena = Some ?a1" by simp
      have ok1: "\<And>q. q \<in> set ts \<Longrightarrow> \<exists>r. regions ?h1 q = Some r \<and> region_ok q r"
        using Cons.prems(4) by simp
      have "lzarena_alloc_align_loop sz alignment arena ?h1
           = Some (?h1\<lparr>arenas := (arenas ?h1)(arena \<mapsto> ?a1\<lparr>tail := loop_tail sz alignment ?h1 ts\<rparr>)\<rparr>)"
        using c1 ne a1 ok1 by (rule Cons.IH)
      moreover have "?a1\<lparr>tail := loop_tail sz alignment ?h1 ts\<rparr>
                       = a\<lparr>tail := loop_tail sz alignment h (t # ts)\<rparr>"
        using Cons av True by simp
      ultimately show ?thesis
        by (simp only: step heap_arenas_upd_upd)
    qed
  qed
qed

text \<open>The length of a new backing buffer is zero (after an overflow) or at least a page.\<close>

lemma append_region_buff_len_ok:
  assumes "config_ok cfg"
  shows "\<exists>len. append_region_buff_len cfg sz = Some len
            \<and> (len = 0 \<or> unat (PAGE_SIZE cfg) \<le> unat len)"
proof -
  from assms obtain k where k: "k < 64" "PAGE_SIZE cfg = 2 ^ k"
    by (auto simp: config_ok_def is_power_of_two_iff)
  let ?b = "PAGE_SIZE cfg * LZARENA_DEFAULT_FACTOR cfg"
  have "unat ?b = unat (PAGE_SIZE cfg) * unat (LZARENA_DEFAULT_FACTOR cfg)"
    using assms by (simp add: config_ok_def unat_mult_lem[THEN iffD1])
  moreover have "0 < unat (PAGE_SIZE cfg)" "0 < unat (LZARENA_DEFAULT_FACTOR cfg)"
    using assms by (simp_all add: config_ok_def unat_gt_0)
  ultimately have "0 < unat ?b" by simp
  then have b0: "?b \<noteq> 0" by (simp only: unat_gt_0 not_False_eq_True)
  have form: "\<And>f. f * ?b = 2 ^ k * (LZARENA_DEFAULT_FACTOR cfg * f)"
    using k by (simp add: mult.commute mult.left_commute)
  have u: "unat (PAGE_SIZE cfg) = 2 ^ k" using k by (simp add: unat_pow2)
  obtain len where len: "append_region_buff_len cfg sz = Some len" "\<exists>f. len = f * ?b"
  proof (cases "sz + REGION_SIZE cfg > ?b")
    case True
    then show ?thesis
      using b0 that by (simp add: append_region_buff_len_def Let_def) blast
  next
    case False
    have "\<exists>f. ?b = f * ?b" by (rule exI[of _ 1]) simp
    moreover have "append_region_buff_len cfg sz = Some ?b"
      using False by (simp add: append_region_buff_len_def Let_def)
    ultimately show ?thesis by (rule that[rotated])
  qed
  from len(2) obtain f where "len = 2 ^ k * (LZARENA_DEFAULT_FACTOR cfg * f)"
    using form by blast
  with word_mult_pow2_ge[OF k(1)] u len(1) show ?thesis by auto
qed

lemma apart_sym: "apart x y \<Longrightarrow> apart y x"
  by (auto simp: apart_def)

lemma pairwise_apart_snoc:
  "pairwise_apart (xs @ [x]) \<longleftrightarrow> pairwise_apart xs \<and> list_all (apart x) xs"
  by (induction xs) (auto simp: apart_sym list_all_iff)

lemma region_chain_snoc:
  assumes "region_chain rs p ps" and "distinct ps" and "ps \<noteq> []" and "rs (last ps) = Some t"
    and "q \<notin> set ps" and "q \<noteq> 0" and "next r = 0"
  shows "region_chain (rs(q \<mapsto> r, last ps \<mapsto> t\<lparr>next := q\<rparr>)) p (ps @ [q])"
  using assms(1-5)
proof (induction ps arbitrary: p)
  case Nil
  then show ?case by simp
next
  case (Cons x xs)
  from Cons.prems(1) obtain rx :: LZRegion where rx: "p = x" "x \<noteq> 0" "rs x = Some rx"
      "region_chain rs (next rx) xs"
    by (auto split: option.splits)
  show ?case
  proof (cases xs)
    case Nil
    with Cons.prems rx have "rx = t" "next rx = 0" by simp_all
    with Nil Cons.prems rx assms(6,7) show ?thesis by auto
  next
    case (Cons y ys)
    then have l: "last (x # xs) = last xs" by simp
    have xl: "x \<noteq> last xs" using Cons.prems(2) Cons by auto
    have xq: "x \<noteq> q" using Cons.prems(5) by auto
    have IH: "region_chain (rs(q \<mapsto> r, last xs \<mapsto> t\<lparr>next := q\<rparr>)) (next rx) (xs @ [q])"
      using rx(4) Cons.prems Cons l by (intro Cons.IH) auto
    have st: "(rs(q \<mapsto> r, last xs \<mapsto> t\<lparr>next := q\<rparr>)) x = Some rx"
      using rx(3) xl xq by simp
    have nz: "(x \<noteq> 0) = True" using rx(2) by simp
    show ?thesis
      unfolding l rx(1)
      by (simp only: append_Cons region_chain.simps st option.case IH nz simp_thms)
  qed
qed

lemma lzalloc_cases:
  "lzalloc len al h =
     (case pending h of
        [] \<Rightarrow> (0, h\<lparr>calls := calls h @ [if al \<noteq> 0 then Allocator_alloc al len else Backend_acquire len]\<rparr>)
      | b # bs \<Rightarrow> (b, h\<lparr>pending := bs,
                        calls := calls h @ [if al \<noteq> 0 then Allocator_alloc al len else Backend_acquire len]\<rparr>))"
  by (simp add: lzalloc_def Let_def)

text \<open>Both branches of \<open>append_region\<close> acquire a buffer and lay a region out in it.\<close>

lemma append_region_unfold:
  assumes "arenas h arena = Some a" and "append_region_buff_len cfg sz = Some len"
  shows "append_region cfg sz arena h =
     (let (buff, h0) = lzalloc len (allocator a) h
      in if buff = 0 then Some (True, h0)
         else case lzregion_init cfg len buff h0 of
                None \<Rightarrow> None
              | Some (region, h1) \<Rightarrow>
                  if region = 0 then Some (True, h1)
                  else if tail a \<noteq> 0
                  then (case regions h1 (tail a) of
                          None \<Rightarrow> None
                        | Some t \<Rightarrow>
                            Some (False,
                              h1\<lparr>regions := (regions h1)(tail a \<mapsto> t\<lparr>next := region\<rparr>),
                                 arenas := (arenas h1)(arena \<mapsto> a\<lparr>tail := region\<rparr>)\<rparr>))
                  else Some (False,
                         h1\<lparr>arenas := (arenas h1)(arena \<mapsto> a\<lparr>head := region, tail := region\<rparr>)\<rparr>))"
  using assms
  by (cases "allocator a = 0")
     (auto simp: append_region_def lzregion_create_def Let_def split: prod.splits option.splits)

lemma region_ok_next [simp]: "region_ok p (r\<lparr>next := x\<rparr>) = region_ok p r"
  by (simp add: region_ok_def)

lemma apart_shrink:
  "apart (b, e) y \<Longrightarrow> b \<le> q \<Longrightarrow> apart (q, e) y"
  by (auto simp: apart_def)

lemma arena_invariantD:
  assumes "arena_invariant h arena ps" and "arenas h arena = Some a"
  shows "region_chain (regions h) (head a) ps"
    and "if ps = [] then tail a = 0 else tail a \<in> set ps"
    and "\<And>q. q \<in> set ps \<Longrightarrow> \<exists>r. regions h q = Some r \<and> region_ok q r"
    and "pairwise_apart (map (extent h) ps)"
    and "distinct ps" and "0 \<notin> set ps"
proof -
  from assms show c: "region_chain (regions h) (head a) ps"
    and "if ps = [] then tail a = 0 else tail a \<in> set ps"
    and "pairwise_apart (map (extent h) ps)"
    by (simp_all add: arena_invariant_def)
  from assms have "list_all (\<lambda>p. case regions h p of None \<Rightarrow> False | Some r \<Rightarrow> region_ok p r) ps"
    by (simp add: arena_invariant_def)
  then show "\<And>q. q \<in> set ps \<Longrightarrow> \<exists>r. regions h q = Some r \<and> region_ok q r"
    by (rule list_all_region_okD)
  from c show "distinct ps" by (rule region_chain_distinct)
  from c show "0 \<notin> set ps" by (rule region_chain_nonzero)
qed

text \<open>\<open>append_region\<close> when the supplier has no buffer: only the supplier's state changes.\<close>

lemma append_region_fails:
  assumes a: "arenas h arena = Some a" and len: "append_region_buff_len cfg sz = Some len"
    and none: "pending h = [] \<or> hd (pending h) = 0"
  shows "append_region cfg sz arena h =
           Some (True, h\<lparr>pending := tl (pending h),
                           calls := calls h @ [if allocator a \<noteq> 0 then Allocator_alloc (allocator a) len
                                               else Backend_acquire len]\<rparr>)"
proof (cases "pending h")
  case Nil
  then have "h\<lparr>pending := tl (pending h)\<rparr> = h" by simp
  then show ?thesis
    using Nil by (simp add: append_region_unfold[OF a len] lzalloc_cases)
next
  case (Cons b bs)
  with none have "b = 0" by simp
  with Cons show ?thesis
    by (simp add: append_region_unfold[OF a len] lzalloc_cases)
qed

text \<open>
  \<open>append_region\<close> when the rounded buffer length has overflowed to zero and the supplier
  answers with a buffer: the assertion of \<open>lzregion_init\<close> fails.
\<close>

lemma append_region_aborts:
  assumes cfg: "config_ok cfg" and a: "arenas h arena = Some a"
    and len: "append_region_buff_len cfg sz = Some 0"
    and b: "pending h = b # bs" "b \<noteq> 0" "unat b \<le> 2 ^ 63"
  shows "append_region cfg sz arena h = None"
proof -
  have "lzregion_init cfg 0 b h0 = None" for h0
    using lzregion_init_fresh[OF cfg b(2), of 0 h0] b(3) by simp
  then show ?thesis
    using b by (simp add: append_region_unfold[OF a len] lzalloc_cases)
qed

lemma extent_eq:
  "regions h p = Some r \<Longrightarrow> extent h p = (unat p, unat (chunk r) + unat (chunk_len r))"
  by (simp add: extent_def)

text \<open>
  \<open>append_region\<close> when the supplier answers with a fresh buffer of non-zero length and the
  tail is the last region (or the chain is empty): a new well-formed region is linked behind
  the tail and becomes the tail.
\<close>

lemma append_region_appends:
  assumes cfg: "config_ok cfg" and inv: "arena_invariant h arena ps" and a: "arenas h arena = Some a"
    and lst: "ps \<noteq> [] \<Longrightarrow> tail a = last ps"
    and len: "append_region_buff_len cfg sz = Some len" and len0: "len \<noteq> 0"
    and b: "pending h = b # bs" "b \<noteq> 0"
    and fresh: "fresh_buffers (unat len) (map (extent h) ps) [b]"
  shows "\<exists>q r h'. append_region cfg sz arena h = Some (False, h')
           \<and> arena_invariant h' arena (ps @ [q])
           \<and> arenas h' = (arenas h)(arena \<mapsto> a\<lparr>head := (if ps = [] then q else head a), tail := q\<rparr>)
           \<and> regions h' q = Some r \<and> region_ok q r \<and> offset r = chunk r \<and> next r = 0
           \<and> region_len r = len \<and> q \<notin> set ps \<and> unat b \<le> unat q
           \<and> unat (chunk r) + unat (chunk_len r) = unat b + unat len
           \<and> (\<forall>p. p \<noteq> q \<longrightarrow> p \<noteq> tail a \<longrightarrow> regions h' p = regions h p)
           \<and> (ps \<noteq> [] \<longrightarrow> (\<exists>t. regions h (tail a) = Some t \<and> regions h' (tail a) = Some (t\<lparr>next := q\<rparr>)))
           \<and> bytes h' = bytes h \<and> pending h' = bs
           \<and> calls h' = calls h @ [if allocator a \<noteq> 0 then Allocator_alloc (allocator a) len
                                     else Backend_acquire len]"
proof -
  note I = arena_invariantD[OF inv a]
  define c where "c = (if allocator a \<noteq> 0 then Allocator_alloc (allocator a) len else Backend_acquire len)"
  have alloc: "lzalloc len (allocator a) h = (b, h\<lparr>pending := bs, calls := calls h @ [c]\<rparr>)"
    using b(1) by (simp add: lzalloc_cases c_def)
  let ?h0 = "h\<lparr>pending := bs, calls := calls h @ [c]\<rparr>"
  from fresh b(2) have lo: "unat b + unat len \<le> 2 ^ 63"
    and ap: "list_all (apart (unat b, unat b + unat len)) (map (extent h) ps)"
    by simp_all
  from append_region_buff_len_ok[OF cfg, of sz] len
  have pg: "len = 0 \<or> unat (PAGE_SIZE cfg) \<le> unat len" by simp
  from lzregion_init_fresh[OF cfg b(2) lo pg, of ?h0] len0
  obtain q r where init: "lzregion_init cfg len b ?h0 = Some (q, ?h0\<lparr>regions := (regions ?h0)(q \<mapsto> r)\<rparr>)"
    and r: "region_ok q r" "offset r = chunk r" "next r = 0" "region_len r = len"
    and bq: "unat b \<le> unat q" and e: "unat (chunk r) + unat (chunk_len r) = unat b + unat len"
    by auto
  let ?h1 = "?h0\<lparr>regions := (regions ?h0)(q \<mapsto> r)\<rparr>"
  from r(1) have q0: "q \<noteq> 0" and qc: "unat q < unat (chunk r)" by (simp_all add: region_ok_def)
  have qps: "q \<notin> set ps"
  proof
    assume "q \<in> set ps"
    from I(3)[OF this] obtain rq where rq: "regions h q = Some rq" "region_ok q rq" by blast
    from ap \<open>q \<in> set ps\<close> have "apart (unat b, unat b + unat len) (extent h q)"
      by (simp add: list_all_iff)
    then have "unat b + unat len \<le> unat q \<or> unat (chunk rq) + unat (chunk_len rq) \<le> unat b"
      using rq(1) by (simp add: apart_def extent_eq)
    moreover have "unat q < unat (chunk rq) + unat (chunk_len rq)"
      using rq(2) by (simp add: region_ok_def)
    ultimately show False using bq qc e by linarith
  qed
  have apq: "list_all (apart (unat q, unat b + unat len)) (map (extent h) ps)"
    using ap bq by (auto simp: list_all_iff intro: apart_shrink)
  show ?thesis
  proof (cases "ps = []")
    case True
    with I(2) have t0: "tail a = 0" by simp
    let ?h' = "?h1\<lparr>arenas := (arenas ?h1)(arena \<mapsto> a\<lparr>head := q, tail := q\<rparr>)\<rparr>"
    have run: "append_region cfg sz arena h = Some (False, ?h')"
      using alloc b(2) init q0 t0 by (simp add: append_region_unfold[OF a len])
    have inv': "arena_invariant ?h' arena (ps @ [q])"
      using True q0 r by (simp add: arena_invariant_def)
    show ?thesis
      using run inv' True r bq e qps
      by (intro exI[of _ q] exI[of _ r] exI[of _ ?h']) (simp add: c_def)
  next
    case False
    with lst I(2) have tl: "tail a = last ps" "tail a \<in> set ps" by simp_all
    with I(6) have tn0: "tail a \<noteq> 0" by metis
    from I(3)[OF tl(2)] obtain t where t: "regions h (tail a) = Some t" "region_ok (tail a) t" by blast
    have tq: "tail a \<noteq> q" using qps tl(2) by metis
    let ?rs' = "(regions h)(q \<mapsto> r, tail a \<mapsto> t\<lparr>next := q\<rparr>)"
    let ?h' = "?h1\<lparr>regions := (regions ?h1)(tail a \<mapsto> t\<lparr>next := q\<rparr>),
                   arenas := (arenas ?h1)(arena \<mapsto> a\<lparr>tail := q\<rparr>)\<rparr>"
    have t1: "regions ?h1 (tail a) = Some t" using t(1) tq by simp
    have run: "append_region cfg sz arena h = Some (False, ?h')"
      using alloc b(2) init q0 tn0 t1 by (simp add: append_region_unfold[OF a len])
    have rs': "regions ?h' = ?rs'" by simp
    have chain: "region_chain ?rs' (head a) (ps @ [q])"
      using region_chain_snoc[OF I(1) I(5) False _ qps q0 r(3), of t] t(1) tl(1) by simp
    have old: "\<And>p. p \<in> set ps \<Longrightarrow> \<exists>rp. ?rs' p = Some rp \<and> region_ok p rp \<and> extent ?h' p = extent h p"
    proof -
      fix p assume p: "p \<in> set ps"
      from I(3)[OF p] obtain rp where rp: "regions h p = Some rp" "region_ok p rp" by blast
      have pq: "p \<noteq> q" using p qps by metis
      show "\<exists>rp. ?rs' p = Some rp \<and> region_ok p rp \<and> extent ?h' p = extent h p"
      proof (cases "p = tail a")
        case True
        then show ?thesis using t rp pq by (simp add: extent_def)
      next
        case False
        then show ?thesis using rp pq by (simp add: extent_def)
      qed
    qed
    have ok': "list_all (\<lambda>p. case ?rs' p of None \<Rightarrow> False | Some r \<Rightarrow> region_ok p r) (ps @ [q])"
    proof -
      have "\<And>p. p \<in> set ps \<Longrightarrow> case ?rs' p of None \<Rightarrow> False | Some r \<Rightarrow> region_ok p r"
        using old by fastforce
      moreover have "case ?rs' q of None \<Rightarrow> False | Some r \<Rightarrow> region_ok q r"
        using r(1) tq by simp
      ultimately show ?thesis by (simp add: list_all_iff)
    qed
    have exq: "extent ?h' q = (unat q, unat b + unat len)"
      using tq e by (simp add: extent_def)
    have old_ext: "\<And>p. p \<in> set ps \<Longrightarrow> extent ?h' p = extent h p"
      using old by blast
    have "map (extent ?h') ps = map (extent h) ps"
      by (rule map_cong[OF refl old_ext])
    then have exts: "map (extent ?h') (ps @ [q]) = map (extent h) ps @ [(unat q, unat b + unat len)]"
      using exq by simp
    have ap': "pairwise_apart (map (extent ?h') (ps @ [q]))"
      unfolding exts pairwise_apart_snoc using I(4) apq by simp
    have inv': "arena_invariant ?h' arena (ps @ [q])"
      using chain ok' ap' by (simp add: arena_invariant_def)
    have P4: "\<forall>p. p \<noteq> q \<longrightarrow> p \<noteq> tail a \<longrightarrow> regions ?h' p = regions h p" by simp
    have P5: "\<exists>t. regions h (tail a) = Some t \<and> regions ?h' (tail a) = Some (t\<lparr>next := q\<rparr>)"
      using t(1) by simp
    have P2: "arenas ?h' = (arenas h)(arena \<mapsto> a\<lparr>head := (if ps = [] then q else head a), tail := q\<rparr>)"
      using False by simp
    have P3: "regions ?h' q = Some r" using tq by simp
    have P6: "bytes ?h' = bytes h \<and> pending ?h' = bs
        \<and> calls ?h' = calls h @ [if allocator a \<noteq> 0 then Allocator_alloc (allocator a) len
                                     else Backend_acquire len]" by (simp add: c_def)
    show ?thesis
      using run inv' P2 P3 r bq e qps P4 P5 P6
      by (intro exI[of _ q] exI[of _ r] exI[of _ ?h']) (simp only: simp_thms)
  qed
qed


subsection \<open>The steps of an allocation\<close>

lemma position_prefix:
  "q \<in> set ps \<Longrightarrow> position q (ps @ new) = position q ps"
  by (simp add: position_def takeWhile_append1 in_set_conv_decomp)

lemma position_take:
  assumes "take (length ps) ps' = ps" and "q \<in> set ps"
  shows "position q ps' = position q ps"
proof -
  from assms(1) have "ps' = ps @ drop (length ps) ps'"
    by (metis append_take_drop_id)
  then show ?thesis using position_prefix[OF assms(2)] by metis
qed

lemma position_less_length: "q \<in> set ps \<Longrightarrow> position q ps < length ps"
  by (induction ps) (auto simp: position_def)

lemma position_not_in: "q \<notin> set ps \<Longrightarrow> position q ps = length ps"
  by (induction ps) (auto simp: position_def)

lemma position_snoc_new: "q \<notin> set ps \<Longrightarrow> position q (ps @ [q]) = length ps"
  by (induction ps) (auto simp: position_def)

lemma arena_step_refl: "arena_invariant h arena ps \<Longrightarrow> arena_step arena h ps h ps"
  by (simp add: arena_step_def)

lemma arena_step_trans:
  assumes 1: "arena_step arena h ps h' ps'" and 2: "arena_step arena h' ps' h'' ps''"
  shows "arena_step arena h ps h'' ps''"
proof -
  from 1 have p1: "take (length ps) ps' = ps" by (simp add: arena_step_def)
  from 2 have p2: "take (length ps') ps'' = ps'" by (simp add: arena_step_def)
  from p1 obtain n1 where n1: "ps' = ps @ n1" by (metis append_take_drop_id)
  from p2 obtain n2 where n2: "ps'' = ps' @ n2" by (metis append_take_drop_id)
  have sub: "set ps \<subseteq> set ps'" using n1 by simp
  have p: "take (length ps) ps'' = ps" using n1 n2 by simp
  have ne: "ps \<noteq> [] \<Longrightarrow> ps' \<noteq> []" using sub by auto
  have unch: "\<forall>q \<in> set ps. position q ps < tail_position h arena ps \<longrightarrow> regions h'' q = regions h q"
  proof (intro ballI impI)
    fix q assume q: "q \<in> set ps" and lt: "position q ps < tail_position h arena ps"
    from 1 q lt have e1: "regions h' q = regions h q" by (simp add: arena_step_def)
    have "position q ps' = position q ps" using p1 q by (rule position_take)
    moreover from 1 have "tail_position h arena ps \<le> tail_position h' arena ps'"
      by (simp add: arena_step_def)
    ultimately have "position q ps' < tail_position h' arena ps'" using lt by simp
    moreover have "q \<in> set ps'" using q sub by auto
    ultimately have "regions h'' q = regions h' q" using 2 by (simp add: arena_step_def)
    with e1 show "regions h'' q = regions h q" by simp
  qed
  have spans: "\<forall>q \<in> set ps. map_option region_span (regions h'' q) = map_option region_span (regions h q)"
    using 1 2 sub by (auto simp: arena_step_def)
  show ?thesis
    unfolding arena_step_def
    using 1 2 p unch spans ne
    by (auto simp: arena_step_def)
qed

lemma position_le_length: "position q ps \<le> length ps"
  by (simp add: position_def length_takeWhile_le)

lemma arena_invariant_iff:
  "arenas h arena = Some a \<Longrightarrow>
   arena_invariant h arena ps \<longleftrightarrow>
     region_chain (regions h) (head a) ps
     \<and> (if ps = [] then tail a = 0 else tail a \<in> set ps)
     \<and> list_all (\<lambda>p. case regions h p of None \<Rightarrow> False | Some r \<Rightarrow> region_ok p r) ps
     \<and> pairwise_apart (map (extent h) ps)"
  by (simp add: arena_invariant_def)

lemma arena_invariant_Some: "arena_invariant h arena ps \<Longrightarrow> \<exists>a. arenas h arena = Some a"
  by (cases "arenas h arena") (simp_all add: arena_invariant_def)

lemma arena_invariant_cong:
  assumes "arena_invariant h arena ps"
    and "regions h' = regions h" and "arenas h' arena = arenas h arena"
  shows "arena_invariant h' arena ps"
proof -
  from arena_invariant_Some[OF assms(1)] obtain a where a: "arenas h arena = Some a" by blast
  then have a': "arenas h' arena = Some a" using assms(3) by simp
  have "extent h' = extent h" using assms(2) by (simp add: extent_def fun_eq_iff)
  then show ?thesis
    using assms(1,2) by (simp add: arena_invariant_iff[OF a] arena_invariant_iff[OF a'])
qed

lemma allocated_cong:
  assumes "\<And>p. p \<in> set ps \<Longrightarrow> regions h' p = regions h p"
  shows "allocated h' ps = allocated h ps"
  using assms by (simp add: allocated_def)

text \<open>A step that only changes the state of the supplier.\<close>

lemma arena_step_supplier:
  assumes "arena_invariant h arena ps"
    and "regions h' = regions h" and "arenas h' = arenas h" and "bytes h' = bytes h"
  shows "arena_step arena h ps h' ps"
proof -
  have "arena_invariant h' arena ps"
    using assms by (intro arena_invariant_cong[OF assms(1)]) simp_all
  moreover have "allocated h' ps = allocated h ps"
    using assms(2) by (simp add: allocated_def)
  moreover have "tail_position h' arena ps = tail_position h arena ps"
    using assms(3) by (simp add: tail_position_def)
  ultimately show ?thesis using assms by (simp add: arena_step_def)
qed

text \<open>A step that only moves \<open>tail\<close> forward along the chain.\<close>

lemma arena_step_tail:
  assumes inv: "arena_invariant h arena ps" and a: "arenas h arena = Some a"
    and t': "t' \<in> set ps" "position (tail a) ps \<le> position t' ps"
  shows "arena_step arena h ps (h\<lparr>arenas := (arenas h)(arena \<mapsto> a\<lparr>tail := t'\<rparr>)\<rparr>) ps"
proof -
  let ?h' = "h\<lparr>arenas := (arenas h)(arena \<mapsto> a\<lparr>tail := t'\<rparr>)\<rparr>"
  have "extent ?h' = extent h" by (simp add: extent_def fun_eq_iff)
  moreover have a': "arenas ?h' arena = Some (a\<lparr>tail := t'\<rparr>)" by simp
  ultimately have "arena_invariant ?h' arena ps"
    using inv t'(1) by (auto simp: arena_invariant_iff[OF a] arena_invariant_iff[OF a'])
  moreover have "allocated ?h' ps = allocated h ps" by (simp add: allocated_def)
  moreover have "tail_position h arena ps \<le> tail_position ?h' arena ps"
    using a t'(2) by (simp add: tail_position_def)
  ultimately show ?thesis using a by (simp add: arena_step_def)
qed

lemma loop_tail_in: "ts \<noteq> [] \<Longrightarrow> loop_tail sz alignment h ts \<in> set ts"
  by (induction sz alignment h ts rule: loop_tail.induct) (auto split: option.splits)

lemma loop_tail_room:
  assumes "ts \<noteq> []" and "\<And>q. q \<in> set ts \<Longrightarrow> \<exists>av. lzregion_available_alignment alignment q h = Some av"
    and "loop_tail sz alignment h ts \<noteq> last ts"
  shows "\<exists>av. lzregion_available_alignment alignment (loop_tail sz alignment h ts) h = Some av \<and> \<not> av < sz"
  using assms
proof (induction sz alignment h ts rule: loop_tail.induct)
  case (1 sz alignment h)
  then show ?case by simp
next
  case (2 sz alignment h t)
  then show ?case by simp
next
  case (3 sz alignment h t u us)
  from "3.prems"(2)[of t] obtain av where av: "lzregion_available_alignment alignment t h = Some av"
    by auto
  show ?case
  proof (cases "av < sz")
    case True
    have "\<exists>av. lzregion_available_alignment alignment (loop_tail sz alignment h (u # us)) h = Some av \<and> \<not> av < sz"
      using av True "3.prems" by (intro "3.IH"[OF av True]) auto
    then show ?thesis using av True by simp
  next
    case False
    then show ?thesis using av by simp
  qed
qed

text \<open>A region that the search loop passes over has too little room.\<close>

lemma loop_tail_skips:
  assumes "\<And>q. q \<in> set ts \<Longrightarrow> \<exists>av. lzregion_available_alignment alignment q h = Some av \<and> av < sz"
    and "ts \<noteq> []"
  shows "loop_tail sz alignment h ts = last ts"
  using assms
proof (induction sz alignment h ts rule: loop_tail.induct)
  case (1 sz alignment h)
  then show ?case by simp
next
  case (2 sz alignment h t)
  then show ?case by simp
next
  case (3 sz alignment h t u us)
  from "3.prems"(1)[of t] obtain av where av: "lzregion_available_alignment alignment t h = Some av" "av < sz"
    by auto
  have "loop_tail sz alignment h (u # us) = last (u # us)"
    using "3.prems" by (intro "3.IH"[OF av]) auto
  then show ?case using av by simp
qed

text \<open>When the search loop ends at a last region without room, no region that it saw has room.\<close>

lemma loop_tail_last_no_room:
  assumes "distinct ts" and "ts \<noteq> []"
    and "\<And>q. q \<in> set ts \<Longrightarrow> \<exists>av. lzregion_available_alignment alignment q h = Some av"
    and "loop_tail sz alignment h ts = last ts"
    and "lzregion_available_alignment alignment (last ts) h = Some av" and "av < sz"
  shows "\<forall>q\<in>set ts. \<exists>av. lzregion_available_alignment alignment q h = Some av \<and> av < sz"
  using assms
proof (induction sz alignment h ts rule: loop_tail.induct)
  case (1 sz alignment h)
  then show ?case by simp
next
  case (2 sz alignment h t)
  then show ?case by simp
next
  case (3 sz alignment h t u us)
  from "3.prems"(3)[of t] obtain avt where avt: "lzregion_available_alignment alignment t h = Some avt"
    by auto
  have tl: "t \<noteq> last (u # us)" using "3.prems"(1) by (metis distinct.simps(2) last_in_set list.distinct(1))
  show ?case
  proof (cases "avt < sz")
    case True
    have "\<forall>q\<in>set (u # us). \<exists>av. lzregion_available_alignment alignment q h = Some av \<and> av < sz"
      using "3.prems" avt True by (intro "3.IH"[OF avt True]) auto
    with avt True show ?thesis by simp
  next
    case False
    with avt "3.prems"(4) tl show ?thesis by simp
  qed
qed

lemma position_dropWhile:
  assumes "distinct ps" and "q \<in> set (dropWhile (\<lambda>x. x \<noteq> t) ps)"
  shows "position t ps \<le> position q ps"
proof -
  let ?pre = "takeWhile (\<lambda>x. x \<noteq> t) ps" and ?ts = "dropWhile (\<lambda>x. x \<noteq> t) ps"
  have ps: "ps = ?pre @ ?ts" by simp
  have "distinct (?pre @ ?ts)" using assms(1) by simp
  then have "q \<notin> set ?pre" using assms(2) by (simp only: distinct_append) blast
  then have "takeWhile (\<lambda>x. x \<noteq> q) (?pre @ ?ts) = ?pre @ takeWhile (\<lambda>x. x \<noteq> q) ?ts"
    by (intro takeWhile_append2) metis
  then have "position q ps = length ?pre + length (takeWhile (\<lambda>x. x \<noteq> q) ?ts)"
    by (simp add: position_def)
  then show ?thesis by (simp add: position_def)
qed

lemma position_in_dropWhile:
  assumes "q \<in> set ps" and "position t ps \<le> position q ps"
  shows "q \<in> set (dropWhile (\<lambda>x. x \<noteq> t) ps)"
proof (rule ccontr)
  assume n: "q \<notin> set (dropWhile (\<lambda>x. x \<noteq> t) ps)"
  let ?pre = "takeWhile (\<lambda>x. x \<noteq> t) ps" and ?ts = "dropWhile (\<lambda>x. x \<noteq> t) ps"
  have "set ps = set ?pre \<union> set ?ts" by (metis set_append takeWhile_dropWhile_id)
  with assms(1) n have "q \<in> set ?pre" by blast
  then have "position q (?pre @ ?ts) = position q ?pre" by (rule position_prefix)
  moreover have "position q ?pre < length ?pre" using \<open>q \<in> set ?pre\<close> by (rule position_less_length)
  ultimately have "position q ps < position t ps" by (simp add: position_def)
  with assms(2) show False by simp
qed

text \<open>
  The search loop as a step of the arena: \<open>tail\<close> moves to a region \<open>t'\<close> at or behind the old
  tail; \<open>t'\<close> has room unless it is the last region, and it is the last region when no
  region from the old tail on has room.
\<close>

lemma lzarena_alloc_align_loop_step:
  assumes inv: "arena_invariant h arena ps" and a: "arenas h arena = Some a" and ne: "ps \<noteq> []"
    and al: "alignment \<noteq> 0" "is_power_of_two alignment"
  shows "\<exists>t'. lzarena_alloc_align_loop sz alignment arena h
                 = Some (h\<lparr>arenas := (arenas h)(arena \<mapsto> a\<lparr>tail := t'\<rparr>)\<rparr>)
           \<and> t' \<in> set ps \<and> position (tail a) ps \<le> position t' ps
           \<and> (t' \<noteq> last ps \<longrightarrow>
                (\<exists>av. lzregion_available_alignment alignment t' h = Some av \<and> \<not> av < sz))
           \<and> ((\<forall>q\<in>set ps. position (tail a) ps \<le> position q ps \<longrightarrow>
                  (\<exists>av. lzregion_available_alignment alignment q h = Some av \<and> av < sz))
                \<longleftrightarrow> (\<exists>av. lzregion_available_alignment alignment t' h = Some av \<and> av < sz))"
proof -
  note I = arena_invariantD[OF inv a]
  let ?pre = "takeWhile (\<lambda>x. x \<noteq> tail a) ps" and ?ts = "dropWhile (\<lambda>x. x \<noteq> tail a) ps"
  from I(2) ne have tin: "tail a \<in> set ps" by simp
  then have tsne: "?ts \<noteq> []" by simp
  have hd: "hd ?ts = tail a" using tsne hd_dropWhile[of "\<lambda>x. x \<noteq> tail a" ps] by simp
  then obtain post where post: "?ts = tail a # post" using tsne by (cases ?ts) auto
  have ps: "ps = ?pre @ tail a # post" using post by (metis takeWhile_dropWhile_id)
  have "region_chain (regions h) (head a) (?pre @ tail a # post)" using I(1) ps by simp
  then have "region_chain (regions h) (tail a) (tail a # post)" by (rule region_chain_split)
  then have chain: "region_chain (regions h) (tail a) ?ts" using post by simp
  have sub: "set ?ts \<subseteq> set ps" by (metis set_dropWhileD subsetI)
  have ok: "\<And>q. q \<in> set ?ts \<Longrightarrow> \<exists>r. regions h q = Some r \<and> region_ok q r"
    using I(3) sub by blast
  have avs: "\<And>q. q \<in> set ?ts \<Longrightarrow> \<exists>av. lzregion_available_alignment alignment q h = Some av"
  proof -
    fix q assume "q \<in> set ?ts"
    from ok[OF this] obtain r where r: "regions h q = Some r" "region_ok q r" by blast
    from lzregion_available_alignment_ok[OF r al] show "\<exists>av. lzregion_available_alignment alignment q h = Some av"
      by metis
  qed
  let ?t' = "loop_tail sz alignment h ?ts"
  have run: "lzarena_alloc_align_loop sz alignment arena h
               = Some (h\<lparr>arenas := (arenas h)(arena \<mapsto> a\<lparr>tail := ?t'\<rparr>)\<rparr>)"
    using chain tsne a ok al by (rule lzarena_alloc_align_loop_ok)
  have t'ts: "?t' \<in> set ?ts" using tsne by (rule loop_tail_in)
  then have t'ps: "?t' \<in> set ps" using sub by blast
  have pos: "position (tail a) ps \<le> position ?t' ps"
    using I(5) t'ts by (rule position_dropWhile)
  have last: "last ?ts = last ps" using ps post by (metis last_appendR list.distinct(1))
  have room: "?t' \<noteq> last ps \<longrightarrow>
                (\<exists>av. lzregion_available_alignment alignment ?t' h = Some av \<and> \<not> av < sz)"
    using loop_tail_room[OF tsne avs, of sz] last by auto
  have skip: "(\<forall>q\<in>set ps. position (tail a) ps \<le> position q ps \<longrightarrow>
                  (\<exists>av. lzregion_available_alignment alignment q h = Some av \<and> av < sz))
                \<longleftrightarrow> (\<exists>av. lzregion_available_alignment alignment ?t' h = Some av \<and> av < sz)"
  proof
    assume all: "\<forall>q\<in>set ps. position (tail a) ps \<le> position q ps \<longrightarrow>
                  (\<exists>av. lzregion_available_alignment alignment q h = Some av \<and> av < sz)"
    with t'ps pos show "\<exists>av. lzregion_available_alignment alignment ?t' h = Some av \<and> av < sz"
      by blast
  next
    assume "\<exists>av. lzregion_available_alignment alignment ?t' h = Some av \<and> av < sz"
    then obtain av where av: "lzregion_available_alignment alignment ?t' h = Some av" "av < sz"
      by blast
    with room have tl: "?t' = last ps" by auto
    then have tl': "?t' = last ?ts" using last by simp
    have d: "distinct ?ts" using I(5) by (rule distinct_dropWhile)
    have av': "lzregion_available_alignment alignment (last ?ts) h = Some av"
      using av(1) tl' by simp
    have none: "\<forall>q\<in>set ?ts. \<exists>av. lzregion_available_alignment alignment q h = Some av \<and> av < sz"
      using d tsne avs tl' av' av(2) by (rule loop_tail_last_no_room)
    show "\<forall>q\<in>set ps. position (tail a) ps \<le> position q ps \<longrightarrow>
                  (\<exists>av. lzregion_available_alignment alignment q h = Some av \<and> av < sz)"
    proof (intro ballI impI)
      fix q assume "q \<in> set ps" "position (tail a) ps \<le> position q ps"
      then have "q \<in> set ?ts" by (rule position_in_dropWhile)
      with none show "\<exists>av. lzregion_available_alignment alignment q h = Some av \<and> av < sz" by blast
    qed
  qed
  from run t'ps pos room skip show ?thesis by blast
qed

lemma pairwise_apart_D:
  "pairwise_apart (map f ps) \<Longrightarrow> p \<in> set ps \<Longrightarrow> q \<in> set ps \<Longrightarrow> p \<noteq> q \<Longrightarrow> apart (f p) (f q)"
proof (induction ps)
  case Nil
  then show ?case by simp
next
  case (Cons x xs)
  then show ?case by (auto simp: list_all_iff dest: apart_sym)
qed

text \<open>The usable spans of two regions of an arena are disjoint.\<close>

lemma region_spans_disjoint:
  assumes inv: "arena_invariant h arena ps" and a: "arenas h arena = Some a"
    and p: "p \<in> set ps" "regions h p = Some rp" and q: "q \<in> set ps" "regions h q = Some rq"
    and ne: "p \<noteq> q"
  shows "region_span rp \<inter> region_span rq = {}"
proof -
  note I = arena_invariantD[OF inv a]
  from I(3)[OF p(1)] p(2) have okp: "region_ok p rp" by simp
  from I(3)[OF q(1)] q(2) have okq: "region_ok q rq" by simp
  have "apart (extent h p) (extent h q)" using I(4) p(1) q(1) ne by (rule pairwise_apart_D)
  then have "unat (chunk rp) + unat (chunk_len rp) \<le> unat q \<or> unat (chunk rq) + unat (chunk_len rq) \<le> unat p"
    using p(2) q(2) by (simp add: apart_def extent_eq)
  moreover have "unat p < unat (chunk rp)" "unat q < unat (chunk rq)"
    using okp okq by (simp_all add: region_ok_def)
  ultimately show ?thesis by (auto simp: region_span_def)
qed

lemma region_used_subset_span: "region_used r \<subseteq> region_span r"
  by (auto simp: region_used_def region_span_def)

lemma allocated_iff:
  "x \<in> allocated h ps \<longleftrightarrow> (\<exists>p r. p \<in> set ps \<and> regions h p = Some r \<and> x \<in> region_used r)"
  by (auto simp: allocated_def split: option.splits)

text \<open>
  The bump allocation in the tail region as a step of the arena: either the region has too
  little room and nothing changes, or a non-null aligned address is returned; its block lies
  in the span of the tail region, is disjoint from everything handed out before, and counts
  as handed out afterwards.
\<close>

lemma lzregion_alloc_align_step:
  assumes inv: "arena_invariant h arena ps" and a: "arenas h arena = Some a" and ne: "ps \<noteq> []"
    and al: "alignment \<noteq> 0" "is_power_of_two alignment"
  shows "\<exists>r av off. regions h (tail a) = Some r
           \<and> lzregion_available_alignment alignment (tail a) h = Some av
           \<and> (if av < sz then lzregion_alloc_align sz alignment (tail a) h = Some (0, h)
               else (\<exists>h'. lzregion_alloc_align sz alignment (tail a) h = Some (off, h')
                      \<and> off \<noteq> 0 \<and> unat alignment dvd unat off
                      \<and> arena_step arena h ps h' ps
                      \<and> arenas h' = arenas h \<and> pending h' = pending h \<and> calls h' = calls h
                      \<and> block off sz \<subseteq> region_span r
                      \<and> block off sz \<inter> allocated h ps = {}
                      \<and> block off sz \<subseteq> allocated h' ps
                      \<and> regions h' = (regions h)(tail a \<mapsto> r\<lparr>offset := off + sz\<rparr>)
                      \<and> (sz \<noteq> 0 \<longrightarrow> unat (chunk r) \<le> unat off
                            \<and> unat off + unat sz \<le> unat (chunk r) + unat (chunk_len r))))"
proof -
  note I = arena_invariantD[OF inv a]
  from I(2) ne have tin: "tail a \<in> set ps" by simp
  from I(3)[OF tin] obtain r where r: "regions h (tail a) = Some r" "region_ok (tail a) r" by blast
  from lzregion_alloc_align_ok[OF r al, of sz] obtain off av where
    av: "lzregion_available_alignment alignment (tail a) h = Some av"
    and cases: "if av < sz then lzregion_alloc_align sz alignment (tail a) h = Some (0, h)
               else lzregion_alloc_align sz alignment (tail a) h
                      = Some (off, h\<lparr>regions := (regions h)(tail a \<mapsto> r\<lparr>offset := off + sz\<rparr>)\<rparr>)
                    \<and> off \<noteq> 0 \<and> unat alignment dvd unat off
                    \<and> region_ok (tail a) (r\<lparr>offset := off + sz\<rparr>)
                    \<and> block off sz \<subseteq> region_span r
                    \<and> block off sz \<inter> region_used r = {}
                    \<and> region_used r \<union> block off sz \<subseteq> region_used (r\<lparr>offset := off + sz\<rparr>)
                    \<and> (sz \<noteq> 0 \<longrightarrow> unat (chunk r) \<le> unat off
                          \<and> unat off + unat sz \<le> unat (chunk r) + unat (chunk_len r))"
    by blast
  show ?thesis
  proof (cases "av < sz")
    case True
    with cases r(1) av show ?thesis by auto
  next
    case False
    let ?r' = "r\<lparr>offset := off + sz\<rparr>"
    let ?h' = "h\<lparr>regions := (regions h)(tail a \<mapsto> ?r')\<rparr>"
    from cases False have run: "lzregion_alloc_align sz alignment (tail a) h = Some (off, ?h')"
      and off: "off \<noteq> 0" "unat alignment dvd unat off"
      and ok': "region_ok (tail a) ?r'"
      and b1: "block off sz \<subseteq> region_span r"
      and b2: "block off sz \<inter> region_used r = {}"
      and b3: "region_used r \<union> block off sz \<subseteq> region_used ?r'"
      and within: "sz \<noteq> 0 \<longrightarrow> unat (chunk r) \<le> unat off
                          \<and> unat off + unat sz \<le> unat (chunk r) + unat (chunk_len r)"
      by simp_all
    have a': "arenas ?h' arena = Some a" using a by simp
    have chain': "region_chain (regions ?h') (head a) ps"
      using I(1) by (rule region_chain_cong) (use r in auto)
    have reg: "\<And>p. p \<in> set ps \<Longrightarrow> \<exists>rp. regions ?h' p = Some rp \<and> region_ok p rp
                   \<and> extent ?h' p = extent h p
                   \<and> map_option region_span (regions ?h' p) = map_option region_span (regions h p)"
    proof -
      fix p assume p: "p \<in> set ps"
      from I(3)[OF p] obtain rp where rp: "regions h p = Some rp" "region_ok p rp" by blast
      show "\<exists>rp. regions ?h' p = Some rp \<and> region_ok p rp \<and> extent ?h' p = extent h p
                   \<and> map_option region_span (regions ?h' p) = map_option region_span (regions h p)"
        using rp r ok' by (cases "p = tail a") (simp_all add: extent_def region_span_def)
    qed
    have ok_all: "list_all (\<lambda>p. case regions ?h' p of None \<Rightarrow> False | Some r \<Rightarrow> region_ok p r) ps"
    proof -
      have "\<And>p. p \<in> set ps \<Longrightarrow> case regions ?h' p of None \<Rightarrow> False | Some r \<Rightarrow> region_ok p r"
        using reg by fastforce
      then show ?thesis by (simp add: list_all_iff)
    qed
    have ext: "map (extent ?h') ps = map (extent h) ps"
      by (rule map_cong[OF refl]) (use reg in blast)
    have ap': "pairwise_apart (map (extent ?h') ps)" unfolding ext by (rule I(4))
    have inv': "arena_invariant ?h' arena ps"
      using chain' I(2) ok_all ap' by (simp add: arena_invariant_iff[OF a'])
    have mono: "allocated h ps \<subseteq> allocated ?h' ps"
    proof
      fix x assume "x \<in> allocated h ps"
      then obtain p rp where p: "p \<in> set ps" "regions h p = Some rp" "x \<in> region_used rp"
        by (auto simp: allocated_iff)
      show "x \<in> allocated ?h' ps"
      proof (cases "p = tail a")
        case True
        with p r have "x \<in> region_used ?r'" using b3 by auto
        with True p(1) show ?thesis by (auto simp: allocated_iff)
      next
        case False
        with p show ?thesis by (auto simp: allocated_iff)
      qed
    qed
    have disj: "block off sz \<inter> allocated h ps = {}"
    proof (rule ccontr)
      assume "block off sz \<inter> allocated h ps \<noteq> {}"
      then obtain x p rp where x: "x \<in> block off sz" and p: "p \<in> set ps" "regions h p = Some rp"
          "x \<in> region_used rp"
        by (auto simp: allocated_iff)
      show False
      proof (cases "p = tail a")
        case True
        with p r x b2 show False by auto
      next
        case False
        have "region_span rp \<inter> region_span r = {}"
          using inv a p(1,2) tin r(1) False by (rule region_spans_disjoint)
        moreover have "x \<in> region_span rp" using p(3) region_used_subset_span by blast
        moreover have "x \<in> region_span r" using x b1 by blast
        ultimately show False by blast
      qed
    qed
    have inn: "block off sz \<subseteq> allocated ?h' ps"
    proof
      fix x assume "x \<in> block off sz"
      then have "x \<in> region_used ?r'" using b3 by blast
      then show "x \<in> allocated ?h' ps" using tin by (auto simp: allocated_iff)
    qed
    have tp: "tail_position ?h' arena ps = tail_position h arena ps"
      using a by (simp add: tail_position_def)
    have unch: "\<forall>q \<in> set ps. position q ps < tail_position h arena ps \<longrightarrow> regions ?h' q = regions h q"
      using a by (auto simp: tail_position_def)
    have spans: "\<forall>q \<in> set ps. map_option region_span (regions ?h' q) = map_option region_span (regions h q)"
      using reg by blast
    have step: "arena_step arena h ps ?h' ps"
      unfolding arena_step_def using inv' mono tp unch spans a by simp
    have others: "regions ?h' = (regions h)(tail a \<mapsto> r\<lparr>offset := off + sz\<rparr>)" by simp
    have sup: "arenas ?h' = arenas h \<and> pending ?h' = pending h \<and> calls ?h' = calls h" by simp
    show ?thesis
      using False r(1) av run off step sup b1 disj inn others within
      by (intro exI[of _ r] exI[of _ av] exI[of _ off]) (simp only: if_False simp_thms, blast)
  qed
qed

text \<open>
  \<open>append_region\<close> as a step of the arena, when \<open>tail\<close> is the last region or the chain is
  empty. There are three outcomes: the assertion of \<open>lzregion_init\<close> fails (only when the
  buffer length has overflowed to zero and the supplier hands out a buffer), the supplier has
  no buffer and only its state changes, or a fresh region \<open>q\<close> is linked at the end of the
  chain and becomes the tail.
\<close>

lemma append_region_step:
  assumes cfg: "config_ok cfg" and inv: "arena_invariant h arena ps" and a: "arenas h arena = Some a"
    and lst: "ps \<noteq> [] \<Longrightarrow> tail a = last ps"
    and len: "append_region_buff_len cfg sz = Some len"
    and fresh: "fresh_buffers (unat len) (map (extent h) ps) (take 1 (pending h))"
  shows "(append_region cfg sz arena h = None \<and> len = 0 \<and> pending h \<noteq> [] \<and> hd (pending h) \<noteq> 0)
       \<or> (\<exists>h'. append_region cfg sz arena h = Some (True, h')
              \<and> (pending h = [] \<or> hd (pending h) = 0)
              \<and> regions h' = regions h \<and> arenas h' = arenas h \<and> bytes h' = bytes h
              \<and> pending h' = tl (pending h)
              \<and> arena_step arena h ps h' ps)
       \<or> (\<exists>h' q r a'. append_region cfg sz arena h = Some (False, h')
              \<and> pending h \<noteq> [] \<and> hd (pending h) \<noteq> 0 \<and> len \<noteq> 0
              \<and> arena_step arena h ps h' (ps @ [q])
              \<and> arenas h' arena = Some a' \<and> tail a' = q \<and> q \<notin> set ps
              \<and> regions h' q = Some r \<and> region_ok q r \<and> offset r = chunk r \<and> next r = 0
              \<and> region_len r = len
              \<and> unat (hd (pending h)) \<le> unat q
              \<and> unat (chunk r) + unat (chunk_len r) = unat (hd (pending h)) + unat len
              \<and> map (extent h') ps = map (extent h) ps
              \<and> (\<forall>p\<in>set ps. map_option (\<lambda>r. r\<lparr>next := 0\<rparr>) (regions h' p)
                                = map_option (\<lambda>r. r\<lparr>next := 0\<rparr>) (regions h p))
              \<and> pending h' = tl (pending h))"
proof (cases "pending h = [] \<or> hd (pending h) = 0")
  case True
  let ?h' = "h\<lparr>pending := tl (pending h),
                 calls := calls h @ [if allocator a \<noteq> 0 then Allocator_alloc (allocator a) len
                                     else Backend_acquire len]\<rparr>"
  have run: "append_region cfg sz arena h = Some (True, ?h')"
    using a len True by (rule append_region_fails)
  have "arena_step arena h ps ?h' ps"
    using inv by (rule arena_step_supplier) simp_all
  with run True show ?thesis by simp
next
  case False
  then obtain b bs where b: "pending h = b # bs" "b \<noteq> 0" by (cases "pending h") auto
  with fresh have fb: "fresh_buffers (unat len) (map (extent h) ps) [b]" by simp
  with b(2) have lo: "unat b + unat len \<le> 2 ^ 63" by simp
  show ?thesis
  proof (cases "len = 0")
    case True
    have "append_region cfg sz arena h = None"
      using cfg a len b lo unfolding True by (intro append_region_aborts) simp_all
    with True b show ?thesis by simp
  next
    case len0: False
    note I = arena_invariantD[OF inv a]
    from append_region_appends[OF cfg inv a lst len len0 b fb]
    obtain q r h' where run: "append_region cfg sz arena h = Some (False, h')"
      and inv': "arena_invariant h' arena (ps @ [q])"
      and ar: "arenas h' = (arenas h)(arena \<mapsto> a\<lparr>head := (if ps = [] then q else head a), tail := q\<rparr>)"
      and r: "regions h' q = Some r" "region_ok q r" "offset r = chunk r" "next r = 0" "region_len r = len"
      and q: "q \<notin> set ps" "unat b \<le> unat q"
      and e: "unat (chunk r) + unat (chunk_len r) = unat b + unat len"
      and others: "\<forall>p. p \<noteq> q \<longrightarrow> p \<noteq> tail a \<longrightarrow> regions h' p = regions h p"
      and link: "ps \<noteq> [] \<longrightarrow> (\<exists>t. regions h (tail a) = Some t \<and> regions h' (tail a) = Some (t\<lparr>next := q\<rparr>))"
      and sup: "bytes h' = bytes h" "pending h' = bs"
      by blast
    let ?a' = "a\<lparr>head := (if ps = [] then q else head a), tail := q\<rparr>"
    have a': "arenas h' arena = Some ?a'" using ar by simp
    have old: "\<And>p. p \<in> set ps \<Longrightarrow>
                 \<exists>rp rp'. regions h p = Some rp \<and> regions h' p = Some rp' \<and> chunk rp' = chunk rp
                    \<and> chunk_len rp' = chunk_len rp \<and> offset rp' = offset rp"
    proof -
      fix p assume p: "p \<in> set ps"
      then have pq: "p \<noteq> q" using q(1) by metis
      from I(3)[OF p] obtain rp where rp: "regions h p = Some rp" by blast
      show "\<exists>rp rp'. regions h p = Some rp \<and> regions h' p = Some rp' \<and> chunk rp' = chunk rp
                    \<and> chunk_len rp' = chunk_len rp \<and> offset rp' = offset rp"
      proof (cases "p = tail a")
        case True
        with link p obtain t where "regions h (tail a) = Some t" "regions h' (tail a) = Some (t\<lparr>next := q\<rparr>)"
          by auto
        with True show ?thesis by simp
      next
        case False
        with others pq rp show ?thesis by simp
      qed
    qed
    have kept: "\<forall>p\<in>set ps. map_option (\<lambda>r. r\<lparr>next := 0\<rparr>) (regions h' p)
                                = map_option (\<lambda>r. r\<lparr>next := 0\<rparr>) (regions h p)"
    proof
      fix p assume p: "p \<in> set ps"
      then have pq: "p \<noteq> q" using q(1) by metis
      show "map_option (\<lambda>r. r\<lparr>next := 0\<rparr>) (regions h' p) = map_option (\<lambda>r. r\<lparr>next := 0\<rparr>) (regions h p)"
      proof (cases "p = tail a")
        case True
        with link p obtain t where "regions h (tail a) = Some t" "regions h' (tail a) = Some (t\<lparr>next := q\<rparr>)"
          by auto
        with True show ?thesis by simp
      next
        case False
        with others pq show ?thesis by simp
      qed
    qed
    have used: "\<And>p. p \<in> set ps \<Longrightarrow> map_option region_used (regions h' p) = map_option region_used (regions h p)"
    proof -
      fix p assume "p \<in> set ps"
      from old[OF this] show "map_option region_used (regions h' p) = map_option region_used (regions h p)"
        by (auto simp: region_used_def)
    qed
    have spans: "\<forall>p\<in>set ps. map_option region_span (regions h' p) = map_option region_span (regions h p)"
    proof
      fix p assume "p \<in> set ps"
      from old[OF this] show "map_option region_span (regions h' p) = map_option region_span (regions h p)"
        by (auto simp: region_span_def)
    qed
    have ext1: "\<And>p. p \<in> set ps \<Longrightarrow> extent h' p = extent h p"
    proof -
      fix p assume "p \<in> set ps"
      from old[OF this] show "extent h' p = extent h p"
        by (auto simp: extent_def)
    qed
    have ext: "map (extent h') ps = map (extent h) ps"
      by (rule map_cong[OF refl ext1])
    have mono: "allocated h ps \<subseteq> allocated h' (ps @ [q])"
    proof
      fix x assume "x \<in> allocated h ps"
      then obtain p rp where p: "p \<in> set ps" "regions h p = Some rp" "x \<in> region_used rp"
        by (auto simp: allocated_iff)
      from used[OF p(1)] p(2) obtain rp' where "regions h' p = Some rp'" "region_used rp' = region_used rp"
        by (cases "regions h' p") auto
      with p show "x \<in> allocated h' (ps @ [q])" by (auto simp: allocated_iff)
    qed
    have tp: "tail_position h arena ps \<le> tail_position h' arena (ps @ [q])"
      using a a' q(1) by (simp add: tail_position_def position_snoc_new position_le_length)
    have unch: "\<forall>p \<in> set ps. position p ps < tail_position h arena ps \<longrightarrow> regions h' p = regions h p"
    proof (intro ballI impI)
      fix p assume p: "p \<in> set ps" and lt: "position p ps < tail_position h arena ps"
      then have "p \<noteq> tail a" using a by (auto simp: tail_position_def)
      moreover have "p \<noteq> q" using p q(1) by metis
      ultimately show "regions h' p = regions h p" using others by simp
    qed
    have step: "arena_step arena h ps h' (ps @ [q])"
      unfolding arena_step_def using inv' sup(1) mono tp unch spans a a' by simp
    show ?thesis
      using run b len0 step a' q r e ext kept sup(2)
      by (intro disjI2 exI[of _ h'] exI[of _ q] exI[of _ r] exI[of _ ?a']) simp
  qed
qed


subsection \<open>Arena allocation\<close>

lemma no_room_iff:
  "arenas h arena = Some a \<Longrightarrow>
   no_room sz alignment arena h ps \<longleftrightarrow>
     (\<forall>q\<in>set ps. position (tail a) ps \<le> position q ps \<longrightarrow>
        (\<exists>av. lzregion_available_alignment alignment q h = Some av \<and> av < sz))"
  by (auto simp: no_room_def list_all_iff split: option.splits)

lemma lzarena_alloc_align_unfold:
  "arenas h arena = Some a \<Longrightarrow>
   lzarena_alloc_align cfg sz alignment arena h =
     (case (if tail a = 0 then append_region cfg sz arena h else Some (False, h)) of
        None \<Rightarrow> None
      | Some (True, h1) \<Rightarrow> Some (0, h1)
      | Some (False, h1) \<Rightarrow> lzarena_alloc_align_search cfg sz alignment arena h1)"
  by (simp add: lzarena_alloc_align_def lzarena_alloc_align_search_def
      split: option.splits prod.splits bool.splits)

lemma lzarena_alloc_align_search_unfold:
  assumes "lzarena_alloc_align_loop sz alignment arena h = Some h2"
    and "arenas h2 arena = Some a2"
    and "lzregion_available_alignment alignment (tail a2) h2 = Some av"
  shows "lzarena_alloc_align_search cfg sz alignment arena h =
     (if av < sz
      then (case append_region cfg sz arena h2 of
              None \<Rightarrow> None
            | Some (True, h3) \<Rightarrow> Some (0, h3)
            | Some (False, h3) \<Rightarrow>
                (case arenas h3 arena of
                   None \<Rightarrow> None
                 | Some a3 \<Rightarrow> lzregion_alloc_align sz alignment (tail a3) h3))
      else lzregion_alloc_align sz alignment (tail a2) h2)"
  using assms by (simp add: lzarena_alloc_align_search_def)

lemma allocated_arenas [simp]: "allocated (h\<lparr>arenas := x\<rparr>) ps = allocated h ps"
  by (simp add: allocated_def)

lemma extent_arenas [simp]: "extent (h\<lparr>arenas := x\<rparr>) = extent h"
  by (simp add: extent_def fun_eq_iff)

lemma arena_stepD:
  assumes "arena_step arena h ps h' ps'"
  shows "arena_invariant h' arena ps'" and "allocated h ps \<subseteq> allocated h' ps'"
    and "bytes h' = bytes h"
  using assms by (simp_all add: arena_step_def)

lemma block_servedI:
  assumes "unat alignment dvd unat p" and "block p sz \<inter> allocated h ps = {}"
    and "block p sz \<subseteq> allocated h' ps'"
    and "arenas h' arena = Some a'" and "tail a' \<in> set ps'" and "regions h' (tail a') = Some r'"
    and "block p sz \<subseteq> region_span r'"
    and "sz \<noteq> 0 \<longrightarrow> unat (chunk r') \<le> unat p \<and> unat p + unat sz \<le> unat (chunk r') + unat (chunk_len r')"
  shows "block_served arena alignment p sz h ps h' ps'"
  using assms by (simp add: block_served_def)

text \<open>
  The bump allocation in the tail region, in terms of \<open>block_served\<close>.
\<close>

lemma lzregion_alloc_align_served:
  assumes inv: "arena_invariant h arena ps" and a: "arenas h arena = Some a" and ne: "ps \<noteq> []"
    and al: "alignment \<noteq> 0" "is_power_of_two alignment"
  shows "\<exists>av. lzregion_available_alignment alignment (tail a) h = Some av
           \<and> (if av < sz then lzregion_alloc_align sz alignment (tail a) h = Some (0, h)
               else (\<exists>p h'. lzregion_alloc_align sz alignment (tail a) h = Some (p, h')
                      \<and> p \<noteq> 0 \<and> arena_step arena h ps h' ps
                      \<and> arenas h' = arenas h \<and> pending h' = pending h \<and> calls h' = calls h
                      \<and> block_served arena alignment p sz h ps h' ps
                      \<and> (\<forall>q. q \<noteq> tail a \<longrightarrow> regions h' q = regions h q)
                      \<and> map_option region_len (regions h' (tail a)) = map_option region_len (regions h (tail a))
                      \<and> map_option chunk (regions h' (tail a)) = map_option chunk (regions h (tail a))
                      \<and> map_option chunk_len (regions h' (tail a)) = map_option chunk_len (regions h (tail a))))"
proof -
  note I = arena_invariantD[OF inv a]
  from I(2) ne have tin: "tail a \<in> set ps" by simp
  from lzregion_alloc_align_step[OF inv a ne al, of sz] obtain r av off where
    r: "regions h (tail a) = Some r"
    and av: "lzregion_available_alignment alignment (tail a) h = Some av"
    and cases: "if av < sz then lzregion_alloc_align sz alignment (tail a) h = Some (0, h)
               else (\<exists>h'. lzregion_alloc_align sz alignment (tail a) h = Some (off, h')
                      \<and> off \<noteq> 0 \<and> unat alignment dvd unat off
                      \<and> arena_step arena h ps h' ps
                      \<and> arenas h' = arenas h \<and> pending h' = pending h \<and> calls h' = calls h
                      \<and> block off sz \<subseteq> region_span r
                      \<and> block off sz \<inter> allocated h ps = {}
                      \<and> block off sz \<subseteq> allocated h' ps
                      \<and> regions h' = (regions h)(tail a \<mapsto> r\<lparr>offset := off + sz\<rparr>)
                      \<and> (sz \<noteq> 0 \<longrightarrow> unat (chunk r) \<le> unat off
                            \<and> unat off + unat sz \<le> unat (chunk r) + unat (chunk_len r)))"
    by blast
  show ?thesis
  proof (cases "av < sz")
    case True
    with av cases show ?thesis by simp
  next
    case False
    with cases obtain h' where run: "lzregion_alloc_align sz alignment (tail a) h = Some (off, h')"
      and off: "off \<noteq> 0" "unat alignment dvd unat off"
      and step: "arena_step arena h ps h' ps"
      and sup: "arenas h' = arenas h" "pending h' = pending h" "calls h' = calls h"
      and b1: "block off sz \<subseteq> region_span r"
      and b2: "block off sz \<inter> allocated h ps = {}"
      and b3: "block off sz \<subseteq> allocated h' ps"
      and rs: "regions h' = (regions h)(tail a \<mapsto> r\<lparr>offset := off + sz\<rparr>)"
      and within: "sz \<noteq> 0 \<longrightarrow> unat (chunk r) \<le> unat off
                            \<and> unat off + unat sz \<le> unat (chunk r) + unat (chunk_len r)"
      by auto
    let ?r' = "r\<lparr>offset := off + sz\<rparr>"
    have a': "arenas h' arena = Some a" using sup(1) a by simp
    have r': "regions h' (tail a) = Some ?r'" using rs by simp
    have sp: "block off sz \<subseteq> region_span ?r'" using b1 by (simp add: region_span_def)
    have w': "sz \<noteq> 0 \<longrightarrow> unat (chunk ?r') \<le> unat off
                \<and> unat off + unat sz \<le> unat (chunk ?r') + unat (chunk_len ?r')"
      using within by simp
    have served: "block_served arena alignment off sz h ps h' ps"
      using off(2) b2 b3 a' tin r' sp w' by (rule block_servedI)
    have others: "\<forall>q. q \<noteq> tail a \<longrightarrow> regions h' q = regions h q" using rs by simp
    have fields: "map_option region_len (regions h' (tail a)) = map_option region_len (regions h (tail a))"
      "map_option chunk (regions h' (tail a)) = map_option chunk (regions h (tail a))"
      "map_option chunk_len (regions h' (tail a)) = map_option chunk_len (regions h (tail a))"
      using r r' by simp_all
    show ?thesis
      using False av run off(1) step sup served others fields
      by (intro exI[of _ av]) (simp only: if_False simp_thms, blast)
  qed
qed

lemma block_served_earlier:
  assumes "block_served arena alignment p sz h1 ps1 h' ps'" and "allocated h ps \<subseteq> allocated h1 ps1"
  shows "block_served arena alignment p sz h ps h' ps'"
  using assms by (auto simp: block_served_def)

text \<open>
  The four outcomes of the search-and-grow part of \<open>lzarena_alloc_align\<close> on a non-empty
  chain:
  \<^item> the assertion of \<open>lzregion_init\<close> fails, which takes a buffer length that has overflowed
    to zero;
  \<^item> a region at or behind the tail has room, and the block comes from it without any call to
    the supplier;
  \<^item> no such region has room and the supplier has no buffer: the result is null, and only
    \<open>tail\<close>, which is now the last region, and the state of the supplier have changed;
  \<^item> no such region has room and the supplier hands out a buffer: one region is appended, and
    the result is a block of it, or null when the new region has too little room.
\<close>

lemma lzarena_alloc_align_search_outcome:
  assumes cfg: "config_ok cfg" and inv: "arena_invariant h arena ps" and a: "arenas h arena = Some a"
    and ne: "ps \<noteq> []" and al: "alignment \<noteq> 0" "is_power_of_two alignment"
    and len: "append_region_buff_len cfg sz = Some len"
    and fresh: "fresh_buffers (unat len) (map (extent h) ps) (take 1 (pending h))"
  shows "(lzarena_alloc_align_search cfg sz alignment arena h = None
            \<and> no_room sz alignment arena h ps
            \<and> len = 0 \<and> pending h \<noteq> [] \<and> hd (pending h) \<noteq> 0)
       \<or> (\<exists>p h'. lzarena_alloc_align_search cfg sz alignment arena h = Some (p, h')
              \<and> p \<noteq> 0 \<and> \<not> no_room sz alignment arena h ps
              \<and> arena_step arena h ps h' ps
              \<and> pending h' = pending h \<and> calls h' = calls h
              \<and> block_served arena alignment p sz h ps h' ps)
       \<or> (\<exists>h'. lzarena_alloc_align_search cfg sz alignment arena h = Some (0, h')
              \<and> no_room sz alignment arena h ps
              \<and> (pending h = [] \<or> hd (pending h) = 0)
              \<and> regions h' = regions h \<and> bytes h' = bytes h
              \<and> arenas h' = (arenas h)(arena \<mapsto> a\<lparr>tail := last ps\<rparr>)
              \<and> pending h' = tl (pending h)
              \<and> arena_step arena h ps h' ps)
       \<or> (\<exists>p h' q r. lzarena_alloc_align_search cfg sz alignment arena h = Some (p, h')
              \<and> no_room sz alignment arena h ps
              \<and> pending h \<noteq> [] \<and> hd (pending h) \<noteq> 0 \<and> len \<noteq> 0
              \<and> arena_step arena h ps h' (ps @ [q]) \<and> q \<notin> set ps
              \<and> map_option tail (arenas h' arena) = Some q
              \<and> regions h' q = Some r \<and> region_len r = len
              \<and> unat (hd (pending h)) \<le> unat q
              \<and> unat (chunk r) + unat (chunk_len r) = unat (hd (pending h)) + unat len
              \<and> (\<forall>x\<in>set ps. map_option (\<lambda>r. r\<lparr>next := 0\<rparr>) (regions h' x)
                                = map_option (\<lambda>r. r\<lparr>next := 0\<rparr>) (regions h x))
              \<and> pending h' = tl (pending h)
              \<and> (p \<noteq> 0 \<longrightarrow> block_served arena alignment p sz h ps h' (ps @ [q]))
              \<and> (p = 0 \<longrightarrow> (\<exists>av. lzregion_available_alignment alignment q h' = Some av \<and> av < sz)))"
proof -
  note I = arena_invariantD[OF inv a]
  from lzarena_alloc_align_loop_step[OF inv a ne al, of sz] obtain t' where
    loop: "lzarena_alloc_align_loop sz alignment arena h
             = Some (h\<lparr>arenas := (arenas h)(arena \<mapsto> a\<lparr>tail := t'\<rparr>)\<rparr>)"
    and t': "t' \<in> set ps" "position (tail a) ps \<le> position t' ps"
    and room: "t' \<noteq> last ps \<longrightarrow>
                (\<exists>av. lzregion_available_alignment alignment t' h = Some av \<and> \<not> av < sz)"
    and nr: "no_room sz alignment arena h ps
                \<longleftrightarrow> (\<exists>av. lzregion_available_alignment alignment t' h = Some av \<and> av < sz)"
    unfolding no_room_iff[OF a] by blast
  let ?a2 = "a\<lparr>tail := t'\<rparr>"
  let ?h2 = "h\<lparr>arenas := (arenas h)(arena \<mapsto> ?a2)\<rparr>"
  have a2: "arenas ?h2 arena = Some ?a2" by simp
  have step2: "arena_step arena h ps ?h2 ps" using inv a t' by (rule arena_step_tail)
  then have inv2: "arena_invariant ?h2 arena ps" by (rule arena_stepD)
  from lzregion_alloc_align_served[OF inv2 a2 ne al, of sz] obtain av where
    av2: "lzregion_available_alignment alignment (tail ?a2) ?h2 = Some av"
    and alloc2: "if av < sz then lzregion_alloc_align sz alignment (tail ?a2) ?h2 = Some (0, ?h2)
               else (\<exists>p h'. lzregion_alloc_align sz alignment (tail ?a2) ?h2 = Some (p, h')
                      \<and> p \<noteq> 0 \<and> arena_step arena ?h2 ps h' ps
                      \<and> arenas h' = arenas ?h2 \<and> pending h' = pending ?h2 \<and> calls h' = calls ?h2
                      \<and> block_served arena alignment p sz ?h2 ps h' ps
                      \<and> (\<forall>q. q \<noteq> tail ?a2 \<longrightarrow> regions h' q = regions ?h2 q)
                      \<and> map_option region_len (regions h' (tail ?a2)) = map_option region_len (regions ?h2 (tail ?a2))
                      \<and> map_option chunk (regions h' (tail ?a2)) = map_option chunk (regions ?h2 (tail ?a2))
                      \<and> map_option chunk_len (regions h' (tail ?a2)) = map_option chunk_len (regions ?h2 (tail ?a2)))"
    by blast
  have av: "lzregion_available_alignment alignment t' h = Some av" using av2 by simp
  have unf: "lzarena_alloc_align_search cfg sz alignment arena h =
     (if av < sz
      then (case append_region cfg sz arena ?h2 of
              None \<Rightarrow> None
            | Some (True, h3) \<Rightarrow> Some (0, h3)
            | Some (False, h3) \<Rightarrow>
                (case arenas h3 arena of
                   None \<Rightarrow> None
                 | Some a3 \<Rightarrow> lzregion_alloc_align sz alignment (tail a3) h3))
      else lzregion_alloc_align sz alignment (tail ?a2) ?h2)"
    using loop a2 av2 by (rule lzarena_alloc_align_search_unfold)
  show ?thesis
  proof (cases "av < sz")
    case False
    with nr av have nnr: "\<not> no_room sz alignment arena h ps" by simp
    from alloc2 False obtain p h' where
      run: "lzregion_alloc_align sz alignment (tail ?a2) ?h2 = Some (p, h')" and p0: "p \<noteq> 0"
      and step: "arena_step arena ?h2 ps h' ps"
      and sup: "pending h' = pending ?h2" "calls h' = calls ?h2"
      and served: "block_served arena alignment p sz ?h2 ps h' ps"
      by auto
    have "lzarena_alloc_align_search cfg sz alignment arena h = Some (p, h')"
      using unf False run by simp
    moreover have "arena_step arena h ps h' ps" using step2 step by (rule arena_step_trans)
    moreover have "block_served arena alignment p sz h ps h' ps"
      using served by (rule block_served_earlier) simp
    ultimately show ?thesis using p0 nnr sup by auto
  next
    case True
    with nr av have nor: "no_room sz alignment arena h ps" by auto
    from room av True have tl: "t' = last ps" by auto
    have lst2: "tail ?a2 = last ps" using tl by simp
    have fresh2: "fresh_buffers (unat len) (map (extent ?h2) ps) (take 1 (pending ?h2))"
      using fresh by simp
    have unf': "lzarena_alloc_align_search cfg sz alignment arena h =
       (case append_region cfg sz arena ?h2 of
              None \<Rightarrow> None
            | Some (True, h3) \<Rightarrow> Some (0, h3)
            | Some (False, h3) \<Rightarrow>
                (case arenas h3 arena of
                   None \<Rightarrow> None
                 | Some a3 \<Rightarrow> lzregion_alloc_align sz alignment (tail a3) h3))"
      using unf True by simp
    note app = append_region_step[OF cfg inv2 a2 lst2 len fresh2]
    consider (abort) "\<not> (pending h = [] \<or> hd (pending h) = 0)" "len = 0"
      | (fail) "pending h = [] \<or> hd (pending h) = 0"
      | (grow) "\<not> (pending h = [] \<or> hd (pending h) = 0)" "len \<noteq> 0"
      by blast
    then show ?thesis
    proof cases
      case abort
      with app have "append_region cfg sz arena ?h2 = None" by auto
      then have "lzarena_alloc_align_search cfg sz alignment arena h = None"
        using unf' by simp
      with abort nor show ?thesis by simp
    next
      case fail0: fail
      with app obtain h3 where fail: "append_region cfg sz arena ?h2 = Some (True, h3)"
        "pending ?h2 = [] \<or> hd (pending ?h2) = 0"
        "regions h3 = regions ?h2" "arenas h3 = arenas ?h2" "bytes h3 = bytes ?h2"
        "pending h3 = tl (pending ?h2)" "arena_step arena ?h2 ps h3 ps"
        by auto
      have "lzarena_alloc_align_search cfg sz alignment arena h = Some (0, h3)"
        using unf' fail(1) by simp
      moreover have "arena_step arena h ps h3 ps" using step2 fail(7) by (rule arena_step_trans)
      moreover have "arenas h3 = (arenas h)(arena \<mapsto> a\<lparr>tail := last ps\<rparr>)"
        using fail(4) tl by simp
      ultimately show ?thesis using fail nor by auto
    next
      case grow0: grow
      with app obtain h3 q r a3 where grow: "append_region cfg sz arena ?h2 = Some (False, h3)"
        "pending ?h2 \<noteq> []" "hd (pending ?h2) \<noteq> 0" "len \<noteq> 0"
        "arena_step arena ?h2 ps h3 (ps @ [q])"
        "arenas h3 arena = Some a3" "tail a3 = q" "q \<notin> set ps"
        "regions h3 q = Some r" "region_ok q r" "offset r = chunk r" "next r = 0"
        "region_len r = len"
        "unat (hd (pending ?h2)) \<le> unat q"
        "unat (chunk r) + unat (chunk_len r) = unat (hd (pending ?h2)) + unat len"
        "map (extent h3) ps = map (extent ?h2) ps"
        "\<forall>p\<in>set ps. map_option (\<lambda>r. r\<lparr>next := 0\<rparr>) (regions h3 p)
                       = map_option (\<lambda>r. r\<lparr>next := 0\<rparr>) (regions ?h2 p)"
        "pending h3 = tl (pending ?h2)"
        by auto
      have kept3: "\<forall>x\<in>set ps. map_option (\<lambda>r. r\<lparr>next := 0\<rparr>) (regions h3 x)
                                = map_option (\<lambda>r. r\<lparr>next := 0\<rparr>) (regions h x)"
        using grow(17) by simp
      have step3: "arena_step arena h ps h3 (ps @ [q])"
        using step2 grow(5) by (rule arena_step_trans)
      then have inv3: "arena_invariant h3 arena (ps @ [q])" by (rule arena_stepD)
      have ne3: "ps @ [q] \<noteq> []" by simp
      from lzregion_alloc_align_served[OF inv3 grow(6) ne3 al, of sz] obtain avq where
        avq: "lzregion_available_alignment alignment (tail a3) h3 = Some avq"
        and alloc3: "if avq < sz then lzregion_alloc_align sz alignment (tail a3) h3 = Some (0, h3)
               else (\<exists>p h'. lzregion_alloc_align sz alignment (tail a3) h3 = Some (p, h')
                      \<and> p \<noteq> 0 \<and> arena_step arena h3 (ps @ [q]) h' (ps @ [q])
                      \<and> arenas h' = arenas h3 \<and> pending h' = pending h3 \<and> calls h' = calls h3
                      \<and> block_served arena alignment p sz h3 (ps @ [q]) h' (ps @ [q])
                      \<and> (\<forall>q. q \<noteq> tail a3 \<longrightarrow> regions h' q = regions h3 q)
                      \<and> map_option region_len (regions h' (tail a3)) = map_option region_len (regions h3 (tail a3))
                      \<and> map_option chunk (regions h' (tail a3)) = map_option chunk (regions h3 (tail a3))
                      \<and> map_option chunk_len (regions h' (tail a3)) = map_option chunk_len (regions h3 (tail a3)))"
        by blast
      have unf3: "lzarena_alloc_align_search cfg sz alignment arena h
                    = lzregion_alloc_align sz alignment q h3"
        using unf' grow(1,6,7) by simp
      show ?thesis
      proof (cases "avq < sz")
        case True
        with alloc3 grow(7) have "lzregion_alloc_align sz alignment q h3 = Some (0, h3)" by simp
        then have run: "lzarena_alloc_align_search cfg sz alignment arena h = Some (0, h3)"
          using unf3 by simp
        have nr3: "\<exists>av. lzregion_available_alignment alignment q h3 = Some av \<and> av < sz"
          using avq True grow(7) by auto
        have tl3: "map_option tail (arenas h3 arena) = Some q" using grow(6,7) by simp
        show ?thesis
          apply (intro disjI2)
          apply (rule exI[of _ 0], rule exI[of _ h3], rule exI[of _ q], rule exI[of _ r])
          using run nor grow(2,3,4) step3 grow(8) tl3 grow(9,13,14,15) kept3 grow(18) nr3
          by simp
      next
        case False
        with alloc3 grow(7) obtain p h' where
          run3: "lzregion_alloc_align sz alignment q h3 = Some (p, h')" and p0: "p \<noteq> 0"
          and step4: "arena_step arena h3 (ps @ [q]) h' (ps @ [q])"
          and sup: "arenas h' = arenas h3" "pending h' = pending h3"
          and served: "block_served arena alignment p sz h3 (ps @ [q]) h' (ps @ [q])"
          and others: "\<forall>p. p \<noteq> q \<longrightarrow> regions h' p = regions h3 p"
          and fields: "map_option region_len (regions h' q) = map_option region_len (regions h3 q)"
            "map_option chunk (regions h' q) = map_option chunk (regions h3 q)"
            "map_option chunk_len (regions h' q) = map_option chunk_len (regions h3 q)"
          by auto
        have run: "lzarena_alloc_align_search cfg sz alignment arena h = Some (p, h')"
          using unf3 run3 by simp
        have step: "arena_step arena h ps h' (ps @ [q])"
          using step3 step4 by (rule arena_step_trans)
        from fields grow(9) obtain r' where r': "regions h' q = Some r'" "region_len r' = region_len r"
          "chunk r' = chunk r" "chunk_len r' = chunk_len r"
          by (cases "regions h' q") auto
        have served': "block_served arena alignment p sz h ps h' (ps @ [q])"
          using served by (rule block_served_earlier) (rule arena_stepD(2)[OF step3])
        have tl4: "map_option tail (arenas h' arena) = Some q" using grow(6,7) sup(1) by simp
        have kept: "\<forall>x\<in>set ps. map_option (\<lambda>r. r\<lparr>next := 0\<rparr>) (regions h' x)
                                = map_option (\<lambda>r. r\<lparr>next := 0\<rparr>) (regions h x)"
          using kept3 others grow(8) by auto
        show ?thesis
          apply (intro disjI2)
          apply (rule exI[of _ p], rule exI[of _ h'], rule exI[of _ q], rule exI[of _ r'])
          using run nor grow(2,3,4) step grow(8) tl4 r' grow(13,14,15) kept grow(18) sup(2) served' p0
          by simp
      qed
    qed
  qed
qed


lemma fresh_buffers_take1:
  "fresh_buffers len exts (take 2 xs) \<Longrightarrow> fresh_buffers len exts (take 1 xs)"
  by (cases xs) (auto split: if_splits)

lemma fresh_buffers_second:
  assumes "fresh_buffers len [] (take 2 (b # bs))" and "b \<noteq> 0" and "unat b \<le> q"
  shows "fresh_buffers len [(q, unat b + len)] (take 1 bs)"
proof (cases bs)
  case Nil
  then show ?thesis by simp
next
  case (Cons b2 bs2)
  with assms show ?thesis
    by (cases bs2) (auto simp: apart_def split: if_splits)
qed

lemma lzregion_available_alignment_kept:
  assumes "map_option (\<lambda>r. r\<lparr>next := 0\<rparr>) (regions h' q) = map_option (\<lambda>r. r\<lparr>next := 0\<rparr>) (regions h q)"
  shows "lzregion_available_alignment alignment q h' = lzregion_available_alignment alignment q h"
proof (cases "regions h q")
  case None
  with assms have "regions h' q = None" by simp
  with None show ?thesis by (simp add: lzregion_available_alignment_def)
next
  case (Some r)
  with assms obtain r' where r': "regions h' q = Some r'" "r'\<lparr>next := 0\<rparr> = r\<lparr>next := 0\<rparr>"
    by (cases "regions h' q") auto
  from r'(2) have "offset (r'\<lparr>next := 0\<rparr>) = offset (r\<lparr>next := 0\<rparr>)"
    "chunk (r'\<lparr>next := 0\<rparr>) = chunk (r\<lparr>next := 0\<rparr>)"
    "chunk_len (r'\<lparr>next := 0\<rparr>) = chunk_len (r\<lparr>next := 0\<rparr>)"
    by simp_all
  then have "offset r' = offset r" "chunk r' = chunk r" "chunk_len r' = chunk_len r" by simp_all
  with Some r'(1) show ?thesis by (simp add: lzregion_available_alignment_def)
qed

lemma lzregion_available_alignment_regions:
  "regions h' = regions h \<Longrightarrow>
   lzregion_available_alignment alignment q h' = lzregion_available_alignment alignment q h"
  by (simp add: lzregion_available_alignment_def)

lemma no_room_empty [simp]: "arenas h arena = Some a \<Longrightarrow> no_room sz alignment arena h []"
  by (simp add: no_room_def)

lemma no_room_single:
  assumes "arenas h arena = Some a" and "tail a = q" and "no_room sz alignment arena h [q]"
  shows "\<exists>av. lzregion_available_alignment alignment q h = Some av \<and> av < sz"
  using assms by (simp add: no_room_iff)

lemma arena_invariant_single_tail:
  "arena_invariant h arena [q] \<Longrightarrow> map_option tail (arenas h arena) = Some q"
  by (cases "arenas h arena") (auto simp: arena_invariant_def)


text \<open>
  The outcomes of \<open>lzarena_alloc_align\<close> on an arena that satisfies the invariant, for a
  non-zero power-of-two alignment and a supplier of fresh buffers:
  \<^item> the assertion of \<open>lzregion_init\<close> fails, which takes a buffer length that has overflowed
    to zero and a supplier that hands out a buffer for it;
  \<^item> a region at or behind the tail has room: the block comes from it, the chain is the same
    and the supplier is not called;
  \<^item> no such region has room and the supplier has no buffer: the result is null; the region
    headers and the contents of memory are the same, \<open>tail\<close> is the last region;
  \<^item> no such region has room and the supplier hands out a buffer: the chain grows by one
    region (on an empty chain, by two when the first one has too little room); the result
    is a block of the new tail, or null when the new tail has too little room.
\<close>

lemma lzarena_alloc_align_outcome:
  assumes cfg: "config_ok cfg" and inv: "arena_invariant h arena ps" and a: "arenas h arena = Some a"
    and al: "alignment \<noteq> 0" "is_power_of_two alignment"
    and len: "append_region_buff_len cfg sz = Some len"
    and fresh: "fresh_buffers (unat len) (map (extent h) ps) (take 2 (pending h))"
  shows "(lzarena_alloc_align cfg sz alignment arena h = None
            \<and> no_room sz alignment arena h ps
            \<and> len = 0 \<and> pending h \<noteq> [] \<and> hd (pending h) \<noteq> 0)
       \<or> (\<exists>p h'. lzarena_alloc_align cfg sz alignment arena h = Some (p, h')
              \<and> p \<noteq> 0 \<and> \<not> no_room sz alignment arena h ps
              \<and> arena_step arena h ps h' ps
              \<and> pending h' = pending h \<and> calls h' = calls h
              \<and> block_served arena alignment p sz h ps h' ps)
       \<or> (\<exists>h'. lzarena_alloc_align cfg sz alignment arena h = Some (0, h')
              \<and> no_room sz alignment arena h ps
              \<and> (pending h = [] \<or> hd (pending h) = 0)
              \<and> regions h' = regions h \<and> bytes h' = bytes h
              \<and> arenas h' = (arenas h)(arena \<mapsto> a\<lparr>tail := (if ps = [] then 0 else last ps)\<rparr>)
              \<and> pending h' = tl (pending h)
              \<and> arena_step arena h ps h' ps)
       \<or> (\<exists>p h' new. lzarena_alloc_align cfg sz alignment arena h = Some (p, h')
              \<and> no_room sz alignment arena h ps
              \<and> pending h \<noteq> [] \<and> hd (pending h) \<noteq> 0 \<and> len \<noteq> 0
              \<and> new \<noteq> [] \<and> length new \<le> 2 \<and> (ps \<noteq> [] \<longrightarrow> length new = 1)
              \<and> arena_step arena h ps h' (ps @ new)
              \<and> map_option tail (arenas h' arena) = Some (last new)
              \<and> (\<forall>x\<in>set ps. map_option (\<lambda>r. r\<lparr>next := 0\<rparr>) (regions h' x)
                                = map_option (\<lambda>r. r\<lparr>next := 0\<rparr>) (regions h x))
              \<and> (p \<noteq> 0 \<longrightarrow> block_served arena alignment p sz h ps h' (ps @ new))
              \<and> (p = 0 \<longrightarrow> (\<exists>av. lzregion_available_alignment alignment (last new) h' = Some av \<and> av < sz))
              \<and> (length new = 2 \<longrightarrow>
                    (\<exists>av. lzregion_available_alignment alignment (hd new) h' = Some av \<and> av < sz)))"
proof (cases "ps = []")
  case False
  note I = arena_invariantD[OF inv a]
  from I(2,6) False have "tail a \<noteq> 0" by metis
  then have unf: "lzarena_alloc_align cfg sz alignment arena h
                    = lzarena_alloc_align_search cfg sz alignment arena h"
    by (simp add: lzarena_alloc_align_unfold[OF a])
  have fresh1: "fresh_buffers (unat len) (map (extent h) ps) (take 1 (pending h))"
    using fresh by (rule fresh_buffers_take1)
  have lastne: "(if ps = [] then 0 else last ps) = last ps" using False by simp
  note out = lzarena_alloc_align_search_outcome[OF cfg inv a False al len fresh1, folded unf]
  from out show ?thesis
  proof (elim disjE, goal_cases)
    case A: 1
    then show ?case by simp
  next
    case B: 2
    then obtain p h' where "lzarena_alloc_align cfg sz alignment arena h = Some (p, h')"
      "p \<noteq> 0" "\<not> no_room sz alignment arena h ps" "arena_step arena h ps h' ps"
      "pending h' = pending h" "calls h' = calls h" "block_served arena alignment p sz h ps h' ps"
      by auto
    then show ?case by auto
  next
    case C: 3
    then obtain h' where "lzarena_alloc_align cfg sz alignment arena h = Some (0, h')"
      "no_room sz alignment arena h ps" "pending h = [] \<or> hd (pending h) = 0"
      "regions h' = regions h" "bytes h' = bytes h"
      "arenas h' = (arenas h)(arena \<mapsto> a\<lparr>tail := last ps\<rparr>)"
      "pending h' = tl (pending h)" "arena_step arena h ps h' ps"
      by auto
    then show ?case unfolding lastne by auto
  next
    case D0: 4
    then obtain p h' q r where D: "lzarena_alloc_align cfg sz alignment arena h = Some (p, h')"
      "no_room sz alignment arena h ps" "pending h \<noteq> []" "hd (pending h) \<noteq> 0" "len \<noteq> 0"
      "arena_step arena h ps h' (ps @ [q])" "q \<notin> set ps"
      "map_option tail (arenas h' arena) = Some q"
      "\<forall>x\<in>set ps. map_option (\<lambda>r. r\<lparr>next := 0\<rparr>) (regions h' x)
                                = map_option (\<lambda>r. r\<lparr>next := 0\<rparr>) (regions h x)"
      "pending h' = tl (pending h)"
      "p \<noteq> 0 \<longrightarrow> block_served arena alignment p sz h ps h' (ps @ [q])"
      "p = 0 \<longrightarrow> (\<exists>av. lzregion_available_alignment alignment q h' = Some av \<and> av < sz)"
      by auto
    show ?case
      apply (intro disjI2)
      apply (rule exI[of _ p], rule exI[of _ h'], rule exI[of _ "[q]"])
      using D False by simp
  qed
next
  case True
  note I = arena_invariantD[OF inv a]
  from I(2) True have t0: "tail a = 0" by simp
  have unf: "lzarena_alloc_align cfg sz alignment arena h =
     (case append_region cfg sz arena h of
        None \<Rightarrow> None
      | Some (True, h1) \<Rightarrow> Some (0, h1)
      | Some (False, h1) \<Rightarrow> lzarena_alloc_align_search cfg sz alignment arena h1)"
    using t0 by (simp add: lzarena_alloc_align_unfold[OF a])
  have nor: "no_room sz alignment arena h ps" using a True by simp
  have fresh1: "fresh_buffers (unat len) (map (extent h) ps) (take 1 (pending h))"
    using fresh by (rule fresh_buffers_take1)
  have lst: "tail a = last ps" if "ps \<noteq> []" using that True by simp
  note app = append_region_step[OF cfg inv a _ len fresh1]
  consider (abort) "\<not> (pending h = [] \<or> hd (pending h) = 0)" "len = 0"
      | (fail) "pending h = [] \<or> hd (pending h) = 0"
      | (grow) "\<not> (pending h = [] \<or> hd (pending h) = 0)" "len \<noteq> 0"
    by blast
  then show ?thesis
  proof cases
    case abort
    with app lst have "append_region cfg sz arena h = None" by auto
    then have "lzarena_alloc_align cfg sz alignment arena h = None" using unf by simp
    with abort nor show ?thesis by simp
  next
    case fail
    with app lst obtain h1 where f: "append_region cfg sz arena h = Some (True, h1)"
      "regions h1 = regions h" "arenas h1 = arenas h" "bytes h1 = bytes h"
      "pending h1 = tl (pending h)" "arena_step arena h ps h1 ps"
      by auto
    have "lzarena_alloc_align cfg sz alignment arena h = Some (0, h1)" using unf f(1) by simp
    moreover have "arenas h1 = (arenas h)(arena \<mapsto> a\<lparr>tail := (if ps = [] then 0 else last ps)\<rparr>)"
      using f(3) a t0 True by (simp add: map_upd_triv)
    ultimately show ?thesis using fail nor f by auto
  next
    case grow
    with app lst obtain h1 q1 r1 a1 where g: "append_region cfg sz arena h = Some (False, h1)"
      "pending h \<noteq> []" "hd (pending h) \<noteq> 0"
      "arena_step arena h ps h1 (ps @ [q1])"
      "arenas h1 arena = Some a1" "tail a1 = q1"
      "regions h1 q1 = Some r1"
      "unat (hd (pending h)) \<le> unat q1"
      "unat (chunk r1) + unat (chunk_len r1) = unat (hd (pending h)) + unat len"
      "pending h1 = tl (pending h)"
      by auto
    from g(4) True have step1: "arena_step arena h [] h1 [q1]" by simp
    then have inv1: "arena_invariant h1 arena [q1]" by (rule arena_stepD)
    have unf1: "lzarena_alloc_align cfg sz alignment arena h
                  = lzarena_alloc_align_search cfg sz alignment arena h1"
      using unf g(1) by simp
    obtain b bs where b: "pending h = b # bs" "b \<noteq> 0" using g(2,3) by (cases "pending h") auto
    have "fresh_buffers (unat len) [] (take 2 (b # bs))" using fresh True b by simp
    then have "fresh_buffers (unat len) [(unat q1, unat b + unat len)] (take 1 bs)"
      using b(2) g(8) b(1) by (intro fresh_buffers_second) simp_all
    then have fresh1': "fresh_buffers (unat len) (map (extent h1) [q1]) (take 1 (pending h1))"
      using g(7,9,10) b(1) by (simp add: extent_eq)
    have ne1: "[q1] \<noteq> []" by simp
    have al0: "allocated h [] \<subseteq> allocated h1 [q1]" by (simp add: allocated_def)
    note out = lzarena_alloc_align_search_outcome[OF cfg inv1 g(5) ne1 al len fresh1', folded unf1]
    from out show ?thesis
    proof (elim disjE, goal_cases)
      case 1
      with grow(2) show ?case by simp
    next
      case B: 2
      then obtain p h' where B': "lzarena_alloc_align cfg sz alignment arena h = Some (p, h')"
        "p \<noteq> 0" "arena_step arena h1 [q1] h' [q1]"
        "block_served arena alignment p sz h1 [q1] h' [q1]"
        by auto
      have step: "arena_step arena h [] h' [q1]" using step1 B'(3) by (rule arena_step_trans)
      then have "arena_invariant h' arena [q1]" by (rule arena_stepD)
      then have tl: "map_option tail (arenas h' arena) = Some q1" by (rule arena_invariant_single_tail)
      have served: "block_served arena alignment p sz h [] h' [q1]"
        using B'(4) al0 by (rule block_served_earlier)
      show ?case
        apply (intro disjI2)
        apply (rule exI[of _ p], rule exI[of _ h'], rule exI[of _ "[q1]"])
        using B'(1,2) nor g(2,3) grow(2) step tl served True by simp
    next
      case C: 3
      then obtain h' where C': "lzarena_alloc_align cfg sz alignment arena h = Some (0, h')"
        "no_room sz alignment arena h1 [q1]" "regions h' = regions h1"
        "arenas h' = (arenas h1)(arena \<mapsto> a1\<lparr>tail := last [q1]\<rparr>)"
        "arena_step arena h1 [q1] h' [q1]"
        by auto
      have step: "arena_step arena h [] h' [q1]" using step1 C'(5) by (rule arena_step_trans)
      have tl: "map_option tail (arenas h' arena) = Some q1" using C'(4) by simp
      from no_room_single[OF g(5,6) C'(2)] obtain av where
        "lzregion_available_alignment alignment q1 h1 = Some av" "av < sz" by blast
      then have nr: "\<exists>av. lzregion_available_alignment alignment q1 h' = Some av \<and> av < sz"
        using lzregion_available_alignment_regions[OF C'(3)] by simp
      show ?case
        apply (intro disjI2)
        apply (rule exI[of _ 0], rule exI[of _ h'], rule exI[of _ "[q1]"])
        using C'(1) nor g(2,3) grow(2) step tl nr True by simp
    next
      case D: 4
      then obtain p h' q2 r2 where D': "lzarena_alloc_align cfg sz alignment arena h = Some (p, h')"
        "no_room sz alignment arena h1 [q1]"
        "arena_step arena h1 [q1] h' ([q1] @ [q2])"
        "map_option tail (arenas h' arena) = Some q2"
        "\<forall>x\<in>set [q1]. map_option (\<lambda>r. r\<lparr>next := 0\<rparr>) (regions h' x)
                                = map_option (\<lambda>r. r\<lparr>next := 0\<rparr>) (regions h1 x)"
        "p \<noteq> 0 \<longrightarrow> block_served arena alignment p sz h1 [q1] h' ([q1] @ [q2])"
        "p = 0 \<longrightarrow> (\<exists>av. lzregion_available_alignment alignment q2 h' = Some av \<and> av < sz)"
        by auto
      have step: "arena_step arena h [] h' [q1, q2]"
        using arena_step_trans[OF step1 D'(3)] by simp
      from no_room_single[OF g(5,6) D'(2)] obtain av where
        "lzregion_available_alignment alignment q1 h1 = Some av" "av < sz" by blast
      moreover have "lzregion_available_alignment alignment q1 h' = lzregion_available_alignment alignment q1 h1"
        using D'(5) by (intro lzregion_available_alignment_kept) simp
      ultimately have nr1: "\<exists>av. lzregion_available_alignment alignment q1 h' = Some av \<and> av < sz"
        by simp
      have served: "p \<noteq> 0 \<longrightarrow> block_served arena alignment p sz h [] h' [q1, q2]"
        using D'(6) al0 by (auto intro: block_served_earlier)
      show ?case
        apply (intro disjI2)
        apply (rule exI[of _ p], rule exI[of _ h'], rule exI[of _ "[q1, q2]"])
        using D'(1) nor g(2,3) grow(2) step D'(4) nr1 served D'(7) True by simp
    qed
  qed
qed


end
